theory Spec2Isabelle
  imports Complex_Main
begin

section \<open>Python values, failures and containers\<close>

text \<open>
  The exceptions the modelled code can raise. A function that can raise returns
  \<open>py_error + 'a\<close>, with \<open>Inl\<close> for the exception.
\<close>

datatype py_error = IndexError | KeyError | ValueError | TypeError
  | ZeroDivisionError | OverflowError | AssertionError

text \<open>
  A metadata value of an entry. The importers store strings; \<open>extract_from_file\<close>
  itself stores the boolean \<open>True\<close> under \<open>DUPLICATE_META\<close>. Other kinds of
  value are not modelled. Strings are ASCII, so that \<open>length\<close> is Python's \<open>len\<close>.
\<close>

datatype pyval = PStr string | PBool bool

text \<open>\<open>len(item)\<close>: defined on a string, a TypeError on a bool.\<close>

fun py_len :: "pyval \<Rightarrow> py_error + nat" where
  "py_len (PStr s) = Inr (length s)"
| "py_len (PBool b) = Inl TypeError"

text \<open>
  A Python dict keeps its items in insertion order, so a dict is an association list
  whose keys are distinct. \<open>d[k] = v\<close> overwrites the value of a key that is present,
  where it stands, and appends a new item otherwise.
\<close>

fun dict_set :: "('k \<times> 'v) list \<Rightarrow> 'k \<Rightarrow> 'v \<Rightarrow> ('k \<times> 'v) list" where
  "dict_set [] k v = [(k, v)]"
| "dict_set ((k', v') # d) k v =
     (if k' = k then (k, v) # d else (k', v') # dict_set d k v)"

text \<open>\<open>xs[i]\<close> on a list: a negative index counts from the end.\<close>

definition py_getitem :: "'a list \<Rightarrow> int \<Rightarrow> py_error + 'a" where
  "py_getitem xs i =
     (if 0 \<le> i \<and> i < int (length xs) then Inr (xs ! nat i)
      else if i < 0 \<and> - int (length xs) \<le> i then Inr (xs ! nat (int (length xs) + i))
      else Inl IndexError)"

text \<open>\<open>xs.index(x)\<close>: the first position of \<open>x\<close>, a ValueError when it is absent.\<close>

fun py_index :: "'a list \<Rightarrow> 'a \<Rightarrow> py_error + int" where
  "py_index [] x = Inl ValueError"
| "py_index (y # ys) x =
     (if y = x then Inr 0
      else case py_index ys x of Inl e \<Rightarrow> Inl e | Inr i \<Rightarrow> Inr (i + 1))"

text \<open>
  \<open>s.split(sep)\<close> for a one-character separator class: the pieces between
  separators, empty pieces included, so the result is never empty.
\<close>

fun split_at :: "(char \<Rightarrow> bool) \<Rightarrow> string \<Rightarrow> string list" where
  "split_at P [] = [[]]"
| "split_at P (c # cs) =
     (if P c then [] # split_at P cs
      else case split_at P cs of
             [] \<Rightarrow> [[c]]
           | w # ws \<Rightarrow> (c # w) # ws)"

definition split_colon :: "string \<Rightarrow> string list" where
  "split_colon s = split_at (\<lambda>c. c = CHR '':'') s"

text \<open>\<open>':'.join(names)\<close>.\<close>

fun join_colon :: "string list \<Rightarrow> string" where
  "join_colon [] = []"
| "join_colon [x] = x"
| "join_colon (x # y # ys) = x @ CHR '':'' # join_colon (y # ys)"

text \<open>
  \<open>s.split()\<close> without argument splits at runs of whitespace and drops the empty
  pieces. On ASCII, whitespace is the codes 9 to 13, 28 to 32.
\<close>

definition is_space :: "char \<Rightarrow> bool" where
  "is_space c = (let n = of_char c :: nat in (9 \<le> n \<and> n \<le> 13) \<or> (28 \<le> n \<and> n \<le> 32))"

definition split_ws :: "string \<Rightarrow> string list" where
  "split_ws s = filter (\<lambda>w. w \<noteq> []) (split_at is_space s)"

section \<open>Python floats\<close>

text \<open>
  A Python float is an IEEE 754 binary64 number. The arithmetic that the modelled
  code does on floats is the true division of two ints, the conversion of an int,
  the product and the sum of two floats, and the comparison; each arithmetic result
  is the exact result rounded to the nearest binary64 number, ties to even.
\<close>

text \<open>\<open>n.bit_length()\<close> for a natural number.\<close>

fun bit_length :: "nat \<Rightarrow> nat" where
  "bit_length n = (if n = 0 then 0 else Suc (bit_length (n div 2)))"

declare bit_length.simps [simp del]

definition pow2 :: "int \<Rightarrow> rat" where
  "pow2 e = power_int 2 e"

text \<open>
  For \<open>x > 0\<close>, the exponent \<open>l\<close> with \<open>2 ^ l \<le> x < 2 ^ (l + 1)\<close>, from the bit
  length of the integer part of \<open>x\<close>, or of \<open>1 / x\<close> rounded up when \<open>x < 1\<close>.
\<close>

definition floor_log2 :: "rat \<Rightarrow> int" where
  "floor_log2 x =
     (if 1 \<le> x then int (bit_length (nat \<lfloor>x\<rfloor>)) - 1
      else - int (bit_length (nat (\<lceil>1 / x\<rceil> - 1))))"

text \<open>The nearest integer, the even one of the two when \<open>x\<close> is halfway.\<close>

definition round_half_even :: "rat \<Rightarrow> int" where
  "round_half_even x =
     (let f = \<lfloor>x\<rfloor>; r = x - of_int f
      in if r < 1 / 2 then f
         else if 1 / 2 < r then f + 1
         else if even f then f else f + 1)"

text \<open>
  Rounding to binary64 with no bound on the exponent from above: a significand of
  53 bits, and the spacing \<open>2 ^ (- 1074)\<close> of the subnormal numbers below
  \<open>2 ^ (- 1022)\<close>.
\<close>

definition round64 :: "rat \<Rightarrow> rat" where
  "round64 x =
     (if x = 0 then 0
      else (let e = max (floor_log2 \<bar>x\<bar> - 52) (- 1074)
            in of_int (round_half_even (x / pow2 e)) * pow2 e))"

text \<open>
  A float: a finite value, an infinity, or the NaN. \<open>Fin 0\<close> stands for both
  zeros, which compare equal. A rounded value of \<open>2 ^ 1024\<close> or more overflows to
  the infinity of its sign.
\<close>

datatype float64 = Fin rat | PInf | NInf | NaN

definition to_float64 :: "rat \<Rightarrow> float64" where
  "to_float64 x =
     (let r = round64 x
      in if 2 ^ 1024 \<le> r then PInf
         else if r \<le> - (2 ^ 1024) then NInf
         else Fin r)"

text \<open>
  \<open>a / b\<close> on two ints: the quotient rounded once; a ZeroDivisionError for
  \<open>b = 0\<close>, an OverflowError when the result is too large for a float.
\<close>

definition int_truediv :: "int \<Rightarrow> int \<Rightarrow> py_error + float64" where
  "int_truediv a b =
     (if b = 0 then Inl ZeroDivisionError
      else case to_float64 (of_int a / of_int b) of
             Fin r \<Rightarrow> Inr (Fin r)
           | PInf \<Rightarrow> Inl OverflowError
           | NInf \<Rightarrow> Inl OverflowError
           | NaN \<Rightarrow> Inl OverflowError)"

text \<open>
  The conversion of an int operand of a float operation; an OverflowError when the
  int is too large.
\<close>

definition float_of_int :: "int \<Rightarrow> py_error + float64" where
  "float_of_int n =
     (case to_float64 (of_int n) of
        Fin r \<Rightarrow> Inr (Fin r)
      | PInf \<Rightarrow> Inl OverflowError
      | NInf \<Rightarrow> Inl OverflowError
      | NaN \<Rightarrow> Inl OverflowError)"

text \<open>\<open>x * y\<close> on two floats.\<close>

fun fmul :: "float64 \<Rightarrow> float64 \<Rightarrow> float64" where
  "fmul NaN y = NaN"
| "fmul x NaN = NaN"
| "fmul (Fin a) (Fin b) = to_float64 (a * b)"
| "fmul (Fin a) PInf = (if a = 0 then NaN else if 0 < a then PInf else NInf)"
| "fmul (Fin a) NInf = (if a = 0 then NaN else if 0 < a then NInf else PInf)"
| "fmul PInf (Fin b) = (if b = 0 then NaN else if 0 < b then PInf else NInf)"
| "fmul NInf (Fin b) = (if b = 0 then NaN else if 0 < b then NInf else PInf)"
| "fmul PInf PInf = PInf"
| "fmul PInf NInf = NInf"
| "fmul NInf PInf = NInf"
| "fmul NInf NInf = PInf"

text \<open>\<open>x + y\<close> on two floats.\<close>

fun fadd :: "float64 \<Rightarrow> float64 \<Rightarrow> float64" where
  "fadd NaN y = NaN"
| "fadd x NaN = NaN"
| "fadd (Fin a) (Fin b) = to_float64 (a + b)"
| "fadd (Fin a) PInf = PInf"
| "fadd (Fin a) NInf = NInf"
| "fadd PInf (Fin b) = PInf"
| "fadd NInf (Fin b) = NInf"
| "fadd PInf PInf = PInf"
| "fadd NInf NInf = NInf"
| "fadd PInf NInf = NaN"
| "fadd NInf PInf = NaN"

text \<open>\<open>x > y\<close> on two floats; every comparison with the NaN is false.\<close>

fun float_gt :: "float64 \<Rightarrow> float64 \<Rightarrow> bool" where
  "float_gt NaN y = False"
| "float_gt x NaN = False"
| "float_gt (Fin a) (Fin b) = (b < a)"
| "float_gt (Fin a) PInf = False"
| "float_gt (Fin a) NInf = True"
| "float_gt PInf (Fin b) = True"
| "float_gt NInf (Fin b) = False"
| "float_gt PInf PInf = False"
| "float_gt PInf NInf = True"
| "float_gt NInf PInf = False"
| "float_gt NInf NInf = False"

text \<open>
  \<open>increment_dict\<close> below adds the increment to the int \<open>0\<close> that \<open>setdefault\<close>
  stores for a new key, or to the value already there: for floats \<open>0\<close> is the float
  zero and \<open>+\<close> is the sum of floats.
\<close>

instantiation float64 :: "{zero,plus}"
begin

definition zero_float64 :: float64 where
  "zero_float64 = Fin 0"

definition plus_float64 :: "float64 \<Rightarrow> float64 \<Rightarrow> float64" where
  "plus_float64 x y = fadd x y"

instance ..

end

section \<open>guesser.py\<close>

subsection \<open>Entries\<close>

text \<open>
  The fields of a posting and of a transaction that the code reads. A date is its
  ordinal, which orders dates as \<open>datetime.date\<close> does.
\<close>

record posting =
  account :: string
  units :: string

record transaction =
  meta :: "(string \<times> pyval) list"
  date :: int
  flag :: char
  payee :: "string option"
  narration :: string
  postings :: "posting list"

text \<open>
  \<open>EXCLUSIONS\<close> holds two literal keys and three constants of
  \<open>beancount.core.interpolate\<close>, which are parameters here.
\<close>

definition EXCLUSIONS :: "string \<times> string \<times> string \<Rightarrow> string list" where
  "EXCLUSIONS auto =
     (case auto of (AUTOMATIC_META, AUTOMATIC_RESIDUAL, AUTOMATIC_TOLERANCES) \<Rightarrow>
        [''filename'', ''lineno'', AUTOMATIC_META, AUTOMATIC_RESIDUAL, AUTOMATIC_TOLERANCES])"

text \<open>
  \<open>increment_dict\<close>: \<open>setdefault(key, 0)\<close> followed by the store of the sum.
\<close>

definition increment_dict :: "('k \<times> 'v::{zero,plus}) list \<Rightarrow> 'k \<Rightarrow> 'v \<Rightarrow> ('k \<times> 'v) list" where
  "increment_dict target_dict key increment =
     (let target = (case map_of target_dict key of None \<Rightarrow> 0 | Some v \<Rightarrow> v)
      in dict_set target_dict key (target + increment))"

text \<open>
  \<open>item_gen\<close>: the words of the narration, the words of the payee (none when the
  payee is \<open>None\<close>), then the metadata values whose key is not excluded.
\<close>

definition item_gen :: "string \<times> string \<times> string \<Rightarrow> transaction \<Rightarrow> pyval list" where
  "item_gen auto txn =
     (let narr_items = map PStr (split_ws (narration txn));
          payee_items = (case payee txn of None \<Rightarrow> [] | Some p \<Rightarrow> map PStr (split_ws p));
          meta_vals = map snd (filter (\<lambda>kv. fst kv \<notin> set (EXCLUSIONS auto)) (meta txn))
      in narr_items @ payee_items @ meta_vals)"

subsection \<open>GuessItem\<close>

text \<open>
  A GuessItem is its \<open>account_dict\<close>, from account names to counts.
\<close>

type_synonym GuessItem = "(string \<times> int) list"

definition GuessItem_init :: GuessItem where
  "GuessItem_init = []"

definition add :: "GuessItem \<Rightarrow> string \<Rightarrow> GuessItem" where
  "add account_dict acct = increment_dict account_dict acct 1"

text \<open>
  \<open>get_weight\<close>: the count of the account divided by the sum of all counts, a
  float, multiplied by itself.
\<close>

definition get_weight :: "GuessItem \<Rightarrow> string \<Rightarrow> py_error + float64" where
  "get_weight account_dict selected_account =
     (case map_of account_dict selected_account of
        None \<Rightarrow> Inl KeyError
      | Some selected_votes \<Rightarrow>
          (case int_truediv selected_votes (sum_list (map snd account_dict)) of
             Inl e \<Rightarrow> Inl e
           | Inr weight \<Rightarrow> Inr (fmul weight weight)))"

text \<open>\<open>get\<close>: the dict comprehension over the accounts, in their order.\<close>

fun get_from :: "GuessItem \<Rightarrow> string list \<Rightarrow> py_error + (string \<times> float64) list" where
  "get_from account_dict [] = Inr []"
| "get_from account_dict (a # as) =
     (case get_weight account_dict a of
        Inl e \<Rightarrow> Inl e
      | Inr w \<Rightarrow> (case get_from account_dict as of
                   Inl e \<Rightarrow> Inl e
                 | Inr ws \<Rightarrow> Inr ((a, w) # ws)))"

definition get :: "GuessItem \<Rightarrow> py_error + (string \<times> float64) list" where
  "get account_dict = get_from account_dict (map fst account_dict)"

subsection \<open>AccountGuess\<close>

text \<open>An AccountGuess is its \<open>save_dict\<close>, from items to GuessItems.\<close>

type_synonym save_dict = "(pyval \<times> GuessItem) list"

text \<open>
  \<open>add_txn\<close>: for each item, \<open>setdefault(item, GuessItem())\<close> and \<open>add\<close> on the
  GuessItem found or created, which the dict holds by reference.
\<close>

fun add_items :: "save_dict \<Rightarrow> pyval list \<Rightarrow> string \<Rightarrow> save_dict" where
  "add_items sd [] account_name = sd"
| "add_items sd (item # items) account_name =
     (let guess_item = (case map_of sd item of None \<Rightarrow> GuessItem_init | Some g \<Rightarrow> g)
      in add_items (dict_set sd item (add guess_item account_name)) items account_name)"

definition add_txn :: "string \<times> string \<times> string \<Rightarrow> save_dict \<Rightarrow> transaction \<Rightarrow> string \<Rightarrow> save_dict" where
  "add_txn auto sd txn account_name = add_items sd (item_gen auto txn) account_name"

text \<open>
  The inner loop of \<open>get_account\<close> over \<open>item_dict.items()\<close>. In its body
  \<open>len(item)\<close> is evaluated, once per account, and converted to a float for the
  product with the weight.
\<close>

fun vote_accounts :: "(string \<times> float64) list \<Rightarrow> pyval \<Rightarrow> (string \<times> float64) list
    \<Rightarrow> py_error + (string \<times> float64) list" where
  "vote_accounts votes item [] = Inr votes"
| "vote_accounts votes item ((acc, itemvote) # rest) =
     (case py_len item of
        Inl e \<Rightarrow> Inl e
      | Inr n \<Rightarrow>
          (case float_of_int (int n) of
             Inl e \<Rightarrow> Inl e
           | Inr len_item \<Rightarrow>
               vote_accounts (increment_dict votes acc (fmul itemvote len_item)) item rest))"

text \<open>The outer loop over the items; an item without GuessItem is skipped.\<close>

fun vote_items :: "save_dict \<Rightarrow> (string \<times> float64) list \<Rightarrow> pyval list
    \<Rightarrow> py_error + (string \<times> float64) list" where
  "vote_items sd votes [] = Inr votes"
| "vote_items sd votes (item # items) =
     (case map_of sd item of
        None \<Rightarrow> vote_items sd votes items
      | Some guess_item \<Rightarrow>
          (case get guess_item of
             Inl e \<Rightarrow> Inl e
           | Inr item_dict \<Rightarrow>
               (case vote_accounts votes item item_dict of
                  Inl e \<Rightarrow> Inl e
                | Inr votes' \<Rightarrow> vote_items sd votes' items)))"

text \<open>
  \<open>max(votes, key=votes.get)\<close>: \<open>max\<close> keeps the first key and replaces it by a
  later one whose value is greater than the value kept. \<open>max_from\<close> carries the
  item kept so far.
\<close>

fun max_from :: "string \<times> float64 \<Rightarrow> (string \<times> float64) list \<Rightarrow> string" where
  "max_from best [] = fst best"
| "max_from best (kv # rest) =
     (if float_gt (snd kv) (snd best) then max_from kv rest else max_from best rest)"

definition get_account :: "string \<times> string \<times> string \<Rightarrow> save_dict \<Rightarrow> transaction
    \<Rightarrow> py_error + string option" where
  "get_account auto sd txn =
     (case vote_items sd [] (item_gen auto txn) of
        Inl e \<Rightarrow> Inl e
      | Inr votes \<Rightarrow>
          (case votes of
             [] \<Rightarrow> Inr None
           | kv # rest \<Rightarrow> Inr (Some (max_from kv rest))))"

section \<open>interactive.py\<close>

subsection \<open>The nested dict of accounts\<close>

text \<open>
  \<open>accounts_dict\<close> is a nested dict: each account name component is a key whose
  value is the dict of its sub-accounts, and the reserved key \<open>'__root__'\<close>, when
  present, holds a boolean. A dict of this shape is the value under \<open>'__root__'\<close>,
  if there is one, and its other items in dict order; their keys are distinct and
  differ from \<open>'__root__'\<close>.
\<close>

datatype nest_dict = NestDict "bool option" "(string \<times> nest_dict) list"

text \<open>\<open>no_root\<close>: the items whose key is not \<open>'__root__'\<close>.\<close>

fun no_root :: "nest_dict \<Rightarrow> (string \<times> nest_dict) list" where
  "no_root (NestDict marker kvs) = kvs"

text \<open>\<open>is_root\<close>: \<open>'__root__' in nest_dict and nest_dict['__root__']\<close>.\<close>

fun is_root :: "nest_dict \<Rightarrow> bool" where
  "is_root (NestDict marker kvs) = (case marker of None \<Rightarrow> False | Some b \<Rightarrow> b)"

subsection \<open>AccountSelector\<close>

text \<open>
  The state of an AccountSelector is its list \<open>selected\<close> of indices (Python
  ints); \<open>accounts_dict\<close> never changes and is an argument of each method.
\<close>

definition reset :: "int list" where
  "reset = [0]"

text \<open>
  The loop of \<open>_get_account\<close>, which collects the names; each round indexes the
  keys, then the values.
\<close>

fun get_names :: "nest_dict \<Rightarrow> int list \<Rightarrow> py_error + string list" where
  "get_names nd [] = Inr []"
| "get_names nd (idx # rest) =
     (case py_getitem (map fst (no_root nd)) idx of
        Inl e \<Rightarrow> Inl e
      | Inr name \<Rightarrow>
          (case py_getitem (map snd (no_root nd)) idx of
             Inl e \<Rightarrow> Inl e
           | Inr nd' \<Rightarrow>
               (case get_names nd' rest of
                  Inl e \<Rightarrow> Inl e
                | Inr names \<Rightarrow> Inr (name # names))))"

definition get_account_name :: "nest_dict \<Rightarrow> int list \<Rightarrow> py_error + string" where
  "get_account_name accounts_dict sel =
     (case get_names accounts_dict sel of
        Inl e \<Rightarrow> Inl e
      | Inr names \<Rightarrow> Inr (join_colon names))"

text \<open>
  The loop of \<open>set_account\<close>: \<open>index\<close> among the keys of \<open>no_root\<close>, then
  \<open>nest_dict[part]\<close>; there \<open>part\<close> is not \<open>'__root__'\<close>, since \<open>index\<close> found it.
\<close>

fun set_parts :: "nest_dict \<Rightarrow> string list \<Rightarrow> py_error + int list" where
  "set_parts nd [] = Inr []"
| "set_parts nd (part # rest) =
     (case py_index (map fst (no_root nd)) part of
        Inl e \<Rightarrow> Inl e
      | Inr idx \<Rightarrow>
          (case map_of (no_root nd) part of
             None \<Rightarrow> Inl KeyError
           | Some nd' \<Rightarrow>
               (case set_parts nd' rest of
                  Inl e \<Rightarrow> Inl e
                | Inr sel \<Rightarrow> Inr (idx # sel))))"

definition set_account :: "nest_dict \<Rightarrow> string \<Rightarrow> py_error + int list" where
  "set_account accounts_dict acct = set_parts accounts_dict (split_colon acct)"

fun get_nested_dict_from_selected :: "nest_dict \<Rightarrow> int list \<Rightarrow> py_error + nest_dict" where
  "get_nested_dict_from_selected nd [] = Inr nd"
| "get_nested_dict_from_selected nd (idx # rest) =
     (case py_getitem (map snd (no_root nd)) idx of
        Inl e \<Rightarrow> Inl e
      | Inr nd' \<Rightarrow> get_nested_dict_from_selected nd' rest)"

definition get_nested_dict :: "nest_dict \<Rightarrow> int list \<Rightarrow> py_error + nest_dict" where
  "get_nested_dict accounts_dict sel = get_nested_dict_from_selected accounts_dict sel"

text \<open>
  The four navigation methods. \<open>selected[-1]\<close> raises IndexError on an empty
  list; \<open>selected[:-1]\<close> is \<open>butlast\<close>.
\<close>

definition prev_account :: "int list \<Rightarrow> py_error + int list" where
  "prev_account sel =
     (if sel = [] then Inl IndexError
      else Inr (butlast sel @ [max (last sel - 1) 0]))"

definition next_account :: "nest_dict \<Rightarrow> int list \<Rightarrow> py_error + int list" where
  "next_account accounts_dict sel =
     (case get_nested_dict_from_selected accounts_dict (butlast sel) of
        Inl e \<Rightarrow> Inl e
      | Inr nd \<Rightarrow>
          (if sel = [] then Inl IndexError
           else Inr (butlast sel @ [min (last sel + 1) (int (length (no_root nd)) - 1)])))"

definition prev_level :: "int list \<Rightarrow> py_error + int list" where
  "prev_level sel = (if length sel > 1 then Inr (butlast sel) else Inr sel)"

definition next_level :: "nest_dict \<Rightarrow> int list \<Rightarrow> py_error + int list" where
  "next_level accounts_dict sel =
     (case get_nested_dict_from_selected accounts_dict sel of
        Inl e \<Rightarrow> Inl e
      | Inr nd \<Rightarrow> (if no_root nd \<noteq> [] then Inr (sel @ [0]) else Inr sel))"

text \<open>A sequence of navigation commands, run until one raises.\<close>

datatype command = PrevAccount | NextAccount | PrevLevel | NextLevel

fun navigate :: "nest_dict \<Rightarrow> command \<Rightarrow> int list \<Rightarrow> py_error + int list" where
  "navigate accounts_dict PrevAccount sel = prev_account sel"
| "navigate accounts_dict NextAccount sel = next_account accounts_dict sel"
| "navigate accounts_dict PrevLevel sel = prev_level sel"
| "navigate accounts_dict NextLevel sel = next_level accounts_dict sel"

fun navigate_all :: "nest_dict \<Rightarrow> command list \<Rightarrow> int list \<Rightarrow> py_error + int list" where
  "navigate_all accounts_dict [] sel = Inr sel"
| "navigate_all accounts_dict (c # cs) sel =
     (case navigate accounts_dict c sel of
        Inl e \<Rightarrow> Inl e
      | Inr sel' \<Rightarrow> navigate_all accounts_dict cs sel')"

text \<open>
  The cursor is a valid path: it is not empty, and each index is at least 0 and
  less than the number of \<open>no_root\<close> items of the dict reached so far.
\<close>

fun valid_path :: "nest_dict \<Rightarrow> int list \<Rightarrow> bool" where
  "valid_path nd [] = True"
| "valid_path nd (idx # rest) =
     (0 \<le> idx \<and> idx < int (length (no_root nd))
      \<and> valid_path (snd (no_root nd ! nat idx)) rest)"

definition valid_cursor :: "nest_dict \<Rightarrow> int list \<Rightarrow> bool" where
  "valid_cursor accounts_dict sel = (1 \<le> length sel \<and> valid_path accounts_dict sel)"

text \<open>
  An account path exists in the tree: its components, in turn, are keys of the
  nested dicts.
\<close>

fun path_in :: "nest_dict \<Rightarrow> string list \<Rightarrow> bool" where
  "path_in nd [] = True"
| "path_in nd (part # rest) =
     (case map_of (no_root nd) part of
        None \<Rightarrow> False
      | Some nd' \<Rightarrow> path_in nd' rest)"

subsection \<open>The loop of select\_account over one entry\<close>

text \<open>
  What the loop holds while one entry is reviewed: the selector's cursor, the
  entry, and the AccountGuess. One round of the \<open>while True\<close> loop reads a key and
  either goes on, leaves the loop by \<open>break\<close>, raises \<open>Quit\<close>, or raises an error.
\<close>

type_synonym review = "int list \<times> transaction \<times> save_dict"

datatype outcome = Continue review | Break review | Quit | Raise py_error

definition commit :: "string \<times> string \<times> string \<Rightarrow> nest_dict \<Rightarrow> review \<Rightarrow> outcome" where
  "commit auto accounts_dict st =
     (case st of (sel, entry, sd) \<Rightarrow>
        (case get_nested_dict accounts_dict sel of
           Inl e \<Rightarrow> Raise e
         | Inr nd \<Rightarrow>
             (if is_root nd then
                (case get_account_name accounts_dict sel of
                   Inl e \<Rightarrow> Raise e
                 | Inr account_name \<Rightarrow>
                     (case py_getitem (postings entry) 1 of
                        Inl e \<Rightarrow> Raise e
                      | Inr p \<Rightarrow>
                          (let entry' = entry\<lparr>postings :=
                                 (postings entry)[1 := p\<lparr>account := account_name\<rparr>]\<rparr>
                           in Break (sel, entry', add_txn auto sd entry' account_name))))
              else Continue st)))"

definition move :: "py_error + int list \<Rightarrow> review \<Rightarrow> outcome" where
  "move r st =
     (case r of
        Inl e \<Rightarrow> Raise e
      | Inr sel' \<Rightarrow> (case st of (sel, entry, sd) \<Rightarrow> Continue (sel', entry, sd)))"

definition handle_key :: "string \<times> string \<times> string \<Rightarrow> nest_dict \<Rightarrow> string \<Rightarrow> review \<Rightarrow> outcome" where
  "handle_key auto accounts_dict keystr st =
     (if keystr = ''q'' then Quit
      else if keystr = ''w'' then move (prev_account (fst st)) st
      else if keystr = ''s'' then move (next_account accounts_dict (fst st)) st
      else if keystr = ''d'' then move (next_level accounts_dict (fst st)) st
      else if keystr = ''a'' then move (prev_level (fst st)) st
      else if keystr = ''r'' then commit auto accounts_dict st
      else Continue st)"

text \<open>
  The \<open>while True\<close> loop on the keys that \<open>getkey\<close> delivers; with no key left it
  waits in \<open>getkey\<close>, which is the result \<open>None\<close>.
\<close>

fun key_loop :: "string \<times> string \<times> string \<Rightarrow> nest_dict \<Rightarrow> string list \<Rightarrow> review
    \<Rightarrow> outcome option" where
  "key_loop auto accounts_dict [] st = None"
| "key_loop auto accounts_dict (keystr # keys) st =
     (case handle_key auto accounts_dict keystr st of
        Continue st' \<Rightarrow> key_loop auto accounts_dict keys st'
      | out \<Rightarrow> Some out)"

text \<open>
  One round of the \<open>for\<close> loop over the entries: a new selector, the cursor set from
  the guess when guessing is active and there is a guess, then the key loop.
\<close>

definition review_entry :: "string \<times> string \<times> string \<Rightarrow> bool \<Rightarrow> nest_dict \<Rightarrow> save_dict
    \<Rightarrow> transaction \<Rightarrow> string list \<Rightarrow> outcome option" where
  "review_entry auto ag_active accounts_dict sd entry keys =
     (case get_account auto sd entry of
        Inl e \<Rightarrow> Some (Raise e)
      | Inr account_name \<Rightarrow>
          (case (case account_name of
                   None \<Rightarrow> Inr reset
                 | Some name \<Rightarrow> (if ag_active then set_account accounts_dict name
                                 else Inr reset)) of
             Inl e \<Rightarrow> Some (Raise e)
           | Inr sel \<Rightarrow> key_loop auto accounts_dict keys (sel, entry, sd)))"

section \<open>extract.py\<close>

definition DUPLICATE_META :: string where
  "DUPLICATE_META = ''__duplicate__''"

text \<open>
  \<open>duplicate_set\<close> holds \<open>id(entry)\<close>, so an entry of \<open>new_entries\<close> is a pair of
  its identity and its value. The loop that marks the duplicates builds
  \<open>mod_entries\<close> and \<open>duplicate_entries\<close> by \<open>append\<close>.
\<close>

fun mark_duplicates :: "nat set \<Rightarrow> (nat \<times> transaction) list \<Rightarrow> transaction list
    \<Rightarrow> transaction list \<Rightarrow> transaction list \<times> transaction list" where
  "mark_duplicates duplicate_set [] mod_entries duplicate_entries =
     (mod_entries, duplicate_entries)"
| "mark_duplicates duplicate_set ((ident, entry) # rest) mod_entries duplicate_entries =
     (if ident \<in> duplicate_set then
        (let marked_meta = dict_set (meta entry) DUPLICATE_META (PBool True);
             entry' = entry\<lparr>meta := marked_meta\<rparr>
         in mark_duplicates duplicate_set rest (mod_entries @ [entry'])
              (duplicate_entries @ [entry']))
      else mark_duplicates duplicate_set rest (mod_entries @ [entry]) duplicate_entries)"

text \<open>
  For the statements below: the copy of an entry whose metadata also maps
  \<open>DUPLICATE_META\<close> to \<open>True\<close>.
\<close>

definition flagged :: "transaction \<Rightarrow> transaction" where
  "flagged entry = entry\<lparr>meta := dict_set (meta entry) DUPLICATE_META (PBool True)\<rparr>"

text \<open>
  \<open>extract_from_file\<close>, from the result \<open>new_entries\<close> of \<open>importer.extract\<close> on.
  \<open>data.sanity_check_types\<close> (true when it passes, an AssertionError otherwise) and
  \<open>similar.find_similar_entries\<close> are parameters. A date is always true as a
  condition, so \<open>if min_date\<close> asks whether a date was given.
\<close>

definition extract_from_file ::
  "(transaction \<Rightarrow> bool)
   \<Rightarrow> ((nat \<times> transaction) list \<Rightarrow> transaction list \<Rightarrow> ((nat \<times> transaction) \<times> transaction) list)
   \<Rightarrow> (nat \<times> transaction) list \<Rightarrow> transaction list option \<Rightarrow> int option
   \<Rightarrow> py_error + transaction list \<times> transaction list" where
  "extract_from_file sanity_check_types find_similar_entries new_entries existing_entries min_date =
     (if new_entries = [] then Inr ([], [])
      else if \<not> list_all (\<lambda>x. sanity_check_types (snd x)) new_entries then Inl AssertionError
      else
        (let new_entries' =
               (case min_date of
                  None \<Rightarrow> new_entries
                | Some d \<Rightarrow> dropWhile (\<lambda>x. date (snd x) < d) new_entries)
         in case existing_entries of
              None \<Rightarrow> Inr (map snd new_entries', [])
            | Some existing \<Rightarrow>
                (let duplicate_pairs = find_similar_entries new_entries' existing;
                     duplicate_set = set (map (\<lambda>pair. fst (fst pair)) duplicate_pairs)
                 in Inr (mark_duplicates duplicate_set new_entries' [] []))))"

text \<open>
  The training loop of \<open>main\<close> over \<open>data.filter_txns(entries)\<close>. The log is the
  list of the calls made to the logger, each a format and its argument; the only
  call on this path is the \<open>debug\<close> at the start of \<open>add_txn\<close>. The \<open>except
  KeyError: raise\<close> clause raises what it caught, and any other exception passes it.
\<close>

type_synonym debug_log = "(string \<times> pyval list) list"

definition add_txn_debug :: "string \<times> string \<times> string \<Rightarrow> transaction \<Rightarrow> string \<times> pyval list" where
  "add_txn_debug auto txn = (''add_txn items'', item_gen auto txn)"

fun train :: "char \<Rightarrow> string \<times> string \<times> string \<Rightarrow> debug_log \<times> save_dict \<Rightarrow> transaction list
    \<Rightarrow> debug_log \<times> (py_error + save_dict)" where
  "train FLAG_OKAY auto (lg, sd) [] = (lg, Inr sd)"
| "train FLAG_OKAY auto (lg, sd) (txn # txns) =
     (if flag txn = FLAG_OKAY then
        (case py_getitem (postings txn) 1 of
           Inl e \<Rightarrow> (lg, Inl e)
         | Inr p \<Rightarrow>
             train FLAG_OKAY auto
               (lg @ [add_txn_debug auto txn], add_txn auto sd txn (account p)) txns)
      else train FLAG_OKAY auto (lg, sd) txns)"

section \<open>Properties of the float model\<close>

subsection \<open>Powers of two and the exponent of a number\<close>

lemma bit_length_bounds:
  "0 < n \<Longrightarrow> 2 ^ (bit_length n - 1) \<le> n \<and> n < 2 ^ bit_length n"
proof (induction n rule: bit_length.induct)
  case (1 n)
  from "1.prems" have n0: "n \<noteq> 0" by simp
  have bl: "bit_length n = Suc (bit_length (n div 2))"
    using n0 by (subst bit_length.simps) simp
  show ?case
  proof (cases "n div 2 = 0")
    case True
    then have "n < 2" by (simp add: div_eq_0_iff)
    with n0 have n1: "n = 1" by linarith
    have "bit_length (n div 2) = 0" unfolding True by (subst bit_length.simps) simp
    with bl n1 show ?thesis by simp
  next
    case False
    then have pos: "0 < n div 2" by simp
    let ?k = "bit_length (n div 2)"
    from "1.IH" [OF n0 pos] have lo: "2 ^ (?k - 1) \<le> n div 2" and hi: "n div 2 < 2 ^ ?k"
      by simp_all
    have k1: "1 \<le> ?k"
    proof (rule ccontr)
      assume "\<not> 1 \<le> ?k"
      then have "?k = 0" by simp
      with hi pos show False by simp
    qed
    then have sk: "Suc (?k - 1) = ?k" by simp
    have "2 ^ ?k = 2 * 2 ^ (?k - 1)" using sk by (metis power_Suc)
    also have "\<dots> \<le> 2 * (n div 2)" using lo by simp
    also have "\<dots> \<le> n" by simp
    finally have a: "(2::nat) ^ ?k \<le> n" .
    have "n < 2 * (n div 2) + 2" by linarith
    also have "\<dots> \<le> 2 * 2 ^ ?k" using hi by simp
    finally have b: "n < 2 ^ Suc ?k" by simp
    from a b bl show ?thesis by simp
  qed
qed

lemma pow2_pos: "0 < pow2 e"
  by (simp add: pow2_def)

lemma pow2_nat: "pow2 (int k) = 2 ^ k"
  by (simp add: pow2_def)

lemma pow2_neg_nat: "pow2 (- int k) = 1 / 2 ^ k"
  by (simp add: pow2_def power_int_minus field_simps)

lemma pow2_add: "pow2 (a + b) = pow2 a * pow2 b"
  by (simp add: pow2_def power_int_add)

lemma pow2_less: "a < b \<Longrightarrow> pow2 a < pow2 b"
  by (simp add: pow2_def power_int_strict_increasing)

lemma pow2_le: "a \<le> b \<Longrightarrow> pow2 a \<le> pow2 b"
  by (simp add: pow2_def power_int_increasing)

lemma pow2_less_cancel: "pow2 a < pow2 b \<Longrightarrow> a < b"
proof (rule ccontr)
  assume l: "pow2 a < pow2 b" and "\<not> a < b"
  then have "b \<le> a" by simp
  then have "pow2 b \<le> pow2 a" by (rule pow2_le)
  with l show False by simp
qed

lemma pow2_le_cancel: "pow2 a \<le> pow2 b \<Longrightarrow> a \<le> b"
proof (rule ccontr)
  assume l: "pow2 a \<le> pow2 b" and "\<not> a \<le> b"
  then have "b < a" by simp
  then have "pow2 b < pow2 a" by (rule pow2_less)
  with l show False by simp
qed

lemma floor_log2_bounds:
  assumes "0 < x"
  shows "pow2 (floor_log2 x) \<le> x \<and> x < pow2 (floor_log2 x + 1)"
proof (cases "1 \<le> x")
  case True
  let ?n = "nat \<lfloor>x\<rfloor>"
  let ?k = "bit_length ?n"
  have f1: "1 \<le> \<lfloor>x\<rfloor>" using True by simp
  then have npos: "0 < ?n" by simp
  from bit_length_bounds [OF npos] have lo: "2 ^ (?k - 1) \<le> ?n" and hi: "?n < 2 ^ ?k"
    by simp_all
  have k1: "1 \<le> ?k"
  proof (rule ccontr)
    assume "\<not> 1 \<le> ?k"
    then have "?k = 0" by simp
    with hi npos show False by simp
  qed
  have fl: "floor_log2 x = int (?k - 1)" using True k1 by (simp add: floor_log2_def)
  have fl1: "floor_log2 x + 1 = int ?k" using fl k1 by simp
  have nx: "(of_nat ?n :: rat) \<le> x"
  proof -
    have "(of_nat ?n :: rat) = of_int \<lfloor>x\<rfloor>" using f1 by simp
    then show ?thesis by simp
  qed
  have "(2::rat) ^ (?k - 1) = of_nat (2 ^ (?k - 1))" by simp
  also have "\<dots> \<le> of_nat ?n" using lo by (simp only: of_nat_le_iff)
  also have "\<dots> \<le> x" by (rule nx)
  finally have a: "pow2 (floor_log2 x) \<le> x" unfolding fl pow2_nat .
  have "?n + 1 \<le> 2 ^ ?k" using hi by linarith
  then have "(of_nat (?n + 1) :: rat) \<le> of_nat (2 ^ ?k)" by (simp only: of_nat_le_iff)
  then have le: "(of_nat ?n :: rat) + 1 \<le> 2 ^ ?k" by simp
  have "x < of_int \<lfloor>x\<rfloor> + 1" using floor_correct [of x] by linarith
  also have "\<dots> = of_nat ?n + 1" using f1 by simp
  also have "\<dots> \<le> 2 ^ ?k" by (rule le)
  finally have b: "x < pow2 (floor_log2 x + 1)" unfolding fl1 pow2_nat .
  from a b show ?thesis ..
next
  case False
  then have x1: "x < 1" by simp
  let ?y = "1 / x"
  let ?c = "\<lceil>?y\<rceil>"
  let ?n = "nat (?c - 1)"
  let ?k = "bit_length ?n"
  have y1: "1 < ?y" using assms x1 by simp
  have c2: "2 \<le> ?c"
  proof -
    have "(1::rat) < of_int ?c" using y1 le_of_int_ceiling [of ?y] by linarith
    then have "1 < ?c" by simp
    then show ?thesis by simp
  qed
  then have npos: "0 < ?n" by simp
  from bit_length_bounds [OF npos] have lo: "2 ^ (?k - 1) \<le> ?n" and hi: "?n < 2 ^ ?k"
    by simp_all
  have k1: "1 \<le> ?k"
  proof (rule ccontr)
    assume "\<not> 1 \<le> ?k"
    then have "?k = 0" by simp
    with hi npos show False by simp
  qed
  have fl: "floor_log2 x = - int ?k" using False by (simp add: floor_log2_def)
  have fl1: "floor_log2 x + 1 = - int (?k - 1)" using fl k1 by simp
  have n_eq: "(of_nat ?n :: rat) = of_int ?c - 1"
  proof -
    have "0 \<le> ?c - 1" using c2 by linarith
    then have "int ?n = ?c - 1" by (rule nat_0_le)
    then have "(of_int (int ?n) :: rat) = of_int (?c - 1)" by (simp only:)
    moreover have "(of_int (int ?n) :: rat) = of_nat ?n" by (rule of_int_of_nat_eq)
    moreover have "(of_int (?c - 1) :: rat) = of_int ?c - 1" by (simp only: of_int_diff of_int_1)
    ultimately show ?thesis by (simp only:)
  qed
  have "?n + 1 \<le> 2 ^ ?k" using hi by linarith
  then have "(of_nat (?n + 1) :: rat) \<le> of_nat (2 ^ ?k)" by (simp only: of_nat_le_iff)
  then have "(of_int ?c :: rat) \<le> 2 ^ ?k" using n_eq by simp
  then have yk: "?y \<le> 2 ^ ?k" using le_of_int_ceiling [of ?y] by linarith
  have "(of_nat (2 ^ (?k - 1)) :: rat) \<le> of_nat ?n" using lo by (simp only: of_nat_le_iff)
  then have "(2::rat) ^ (?k - 1) \<le> of_int ?c - 1" using n_eq by simp
  also have "\<dots> < ?y" using ceiling_correct [of ?y] by linarith
  finally have ky: "(2::rat) ^ (?k - 1) < ?y" .
  have p1: "0 < (2::rat) ^ ?k" and p2: "0 < (2::rat) ^ (?k - 1)" by simp_all
  have a: "1 / 2 ^ ?k \<le> x"
  proof -
    have "1 \<le> x * 2 ^ ?k" using yk assms by (simp add: field_simps)
    then show ?thesis using p1 by (simp add: field_simps)
  qed
  have b: "x < 1 / 2 ^ (?k - 1)"
  proof -
    have "x * 2 ^ (?k - 1) < 1" using ky assms by (simp add: field_simps)
    then show ?thesis using p2 by (simp add: field_simps)
  qed
  have A: "pow2 (floor_log2 x) = 1 / 2 ^ ?k" unfolding fl by (rule pow2_neg_nat)
  have B: "pow2 (floor_log2 x + 1) = 1 / 2 ^ (?k - 1)" unfolding fl1 by (rule pow2_neg_nat)
  from a b show ?thesis unfolding A B ..
qed

subsection \<open>Rounding\<close>

lemma round_half_even_cases:
  "round_half_even s = \<lfloor>s\<rfloor> \<or> round_half_even s = \<lfloor>s\<rfloor> + 1"
  by (simp add: round_half_even_def Let_def)

lemma round_half_even_ge: "of_int k \<le> s \<Longrightarrow> k \<le> round_half_even s"
proof -
  assume "of_int k \<le> s"
  then have "k \<le> \<lfloor>s\<rfloor>" by (simp add: le_floor_iff)
  with round_half_even_cases [of s] show ?thesis by linarith
qed

lemma round_half_even_le: "s \<le> of_int k \<Longrightarrow> round_half_even s \<le> k"
proof (cases "s = of_int k")
  case True
  then show ?thesis by (simp add: round_half_even_def Let_def)
next
  case False
  assume "s \<le> of_int k"
  with False have "s < of_int k" by simp
  then have "\<lfloor>s\<rfloor> < k" by (simp add: floor_less_iff)
  with round_half_even_cases [of s] show ?thesis by linarith
qed

lemma round_half_even_err: "\<bar>of_int (round_half_even s) - s\<bar> \<le> 1 / 2"
proof -
  let ?f = "\<lfloor>s\<rfloor>"
  let ?r = "s - of_int ?f"
  have r: "0 \<le> ?r" "?r < 1" using floor_correct [of s] by linarith+
  show ?thesis
  proof (cases "?r < 1 / 2")
    case True
    then have "round_half_even s = ?f" by (simp add: round_half_even_def Let_def)
    with True r show ?thesis by simp
  next
    case False
    show ?thesis
    proof (cases "1 / 2 < ?r")
      case True
      then have "round_half_even s = ?f + 1" using False by (simp add: round_half_even_def Let_def)
      then have "of_int (round_half_even s) - s = 1 - ?r" by simp
      with True r show ?thesis by linarith
    next
      case F2: False
      with False have h: "?r = 1 / 2" by linarith
      from round_half_even_cases [of s] show ?thesis
      proof
        assume "round_half_even s = ?f"
        then have "of_int (round_half_even s) - s = - ?r" by simp
        with h show ?thesis by linarith
      next
        assume "round_half_even s = ?f + 1"
        then have "of_int (round_half_even s) - s = 1 - ?r" by simp
        with h show ?thesis by linarith
      qed
    qed
  qed
qed

lemma round64_nonneg: "0 \<le> x \<Longrightarrow> 0 \<le> round64 x"
proof (cases "x = 0")
  case True
  then show ?thesis by (simp add: round64_def)
next
  case False
  assume x: "0 \<le> x"
  let ?e = "max (floor_log2 \<bar>x\<bar> - 52) (- 1074)"
  have "0 \<le> x / pow2 ?e" using x pow2_pos [of ?e] by simp
  then have "of_int 0 \<le> x / pow2 ?e" by simp
  then have "0 \<le> round_half_even (x / pow2 ?e)" by (rule round_half_even_ge)
  then have "0 \<le> of_int (round_half_even (x / pow2 ?e)) * pow2 ?e"
    using pow2_pos [of ?e] by simp
  then show ?thesis using False by (simp add: round64_def Let_def)
qed

lemma floor_log2_le_0: "0 < x \<Longrightarrow> x \<le> 1 \<Longrightarrow> floor_log2 x \<le> 0"
proof -
  assume x: "0 < x" "x \<le> 1"
  from floor_log2_bounds [OF x(1)] have "pow2 (floor_log2 x) \<le> x" by simp
  with x(2) have "pow2 (floor_log2 x) \<le> pow2 0" by (simp add: pow2_def)
  then show ?thesis by (rule pow2_le_cancel)
qed

lemma round64_le_1:
  assumes "0 < x" and "x \<le> 1"
  shows "round64 x \<le> 1"
proof -
  let ?e = "max (floor_log2 \<bar>x\<bar> - 52) (- 1074)"
  have ax: "\<bar>x\<bar> = x" using assms(1) by simp
  have e0: "?e \<le> 0" using floor_log2_le_0 [OF assms] unfolding ax by simp
  let ?K = "(2::int) ^ nat (- ?e)"
  have pe: "pow2 ?e * of_int ?K = 1"
  proof -
    have "pow2 (?e + - ?e) = pow2 ?e * pow2 (- ?e)" by (rule pow2_add)
    moreover have "pow2 (- ?e) = of_int ?K"
    proof -
      have "pow2 (int (nat (- ?e))) = 2 ^ nat (- ?e)" by (rule pow2_nat)
      moreover have "int (nat (- ?e)) = - ?e" using e0 by simp
      ultimately show ?thesis by simp
    qed
    ultimately show ?thesis by (simp add: pow2_def)
  qed
  have "x / pow2 ?e \<le> of_int ?K"
  proof -
    have "x \<le> of_int ?K * pow2 ?e" using pe assms(2) by (simp add: mult.commute)
    then show ?thesis using pow2_pos [of ?e] by (simp add: field_simps)
  qed
  then have "round_half_even (x / pow2 ?e) \<le> ?K" by (rule round_half_even_le)
  then have "(of_int (round_half_even (x / pow2 ?e)) :: rat) \<le> of_int ?K"
    by (simp only: of_int_le_iff)
  then have "of_int (round_half_even (x / pow2 ?e)) * pow2 ?e \<le> of_int ?K * pow2 ?e"
    using pow2_pos [of ?e] by (simp only: mult_le_cancel_right_pos)
  also have "\<dots> = 1" using pe by (simp add: mult.commute)
  finally show ?thesis using assms(1) by (simp add: round64_def Let_def)
qed

lemma round64_error:
  assumes "pow2 (- 1022) \<le> x"
  shows "\<bar>round64 x - x\<bar> \<le> x / 2 ^ 53"
proof -
  have xpos: "0 < x" using assms pow2_pos [of "- 1022"] by linarith
  have ax: "\<bar>x\<bar> = x" using xpos by simp
  let ?l = "floor_log2 x"
  from floor_log2_bounds [OF xpos] have lo: "pow2 ?l \<le> x" and hi: "x < pow2 (?l + 1)"
    by simp_all
  have "pow2 (- 1022) < pow2 (?l + 1)" using assms hi by linarith
  then have "- 1022 < ?l + 1" by (rule pow2_less_cancel)
  then have e: "max (?l - 52) (- 1074) = ?l - 52" by simp
  let ?e = "?l - 52"
  let ?m = "round_half_even (x / pow2 ?e)"
  have r: "round64 x = of_int ?m * pow2 ?e"
    using xpos e by (simp add: round64_def Let_def ax)
  have pe: "0 < pow2 ?e" by (rule pow2_pos)
  have "round64 x - x = (of_int ?m - x / pow2 ?e) * pow2 ?e"
    unfolding r using pe by (simp add: field_simps)
  then have "\<bar>round64 x - x\<bar> = \<bar>of_int ?m - x / pow2 ?e\<bar> * pow2 ?e"
    using pe by (simp add: abs_mult)
  also have "\<dots> \<le> (1 / 2) * pow2 ?e"
    using round_half_even_err [of "x / pow2 ?e"] pe by (simp only: mult_le_cancel_right_pos)
  also have "\<dots> = pow2 ?l / 2 ^ 53"
  proof -
    have "pow2 (?e + 52) = pow2 ?e * pow2 52" by (rule pow2_add)
    then have "pow2 ?l = pow2 ?e * 2 ^ 52" by (simp add: pow2_def)
    then show ?thesis by simp
  qed
  also have "\<dots> \<le> x / 2 ^ 53" using lo by (simp add: divide_right_mono)
  finally show ?thesis .
qed

lemma to_float64_fin:
  "- (2 ^ 1024) < round64 x \<Longrightarrow> round64 x < 2 ^ 1024 \<Longrightarrow> to_float64 x = Fin (round64 x)"
  by (simp add: to_float64_def Let_def)

lemma round64_small_values: "round64 0 = 0" "round64 1 = 1" "round64 6 = 6"
  by code_simp+

lemma float_values: "to_float64 0 = Fin 0" "to_float64 1 = Fin 1" "to_float64 6 = Fin 6"
  using to_float64_fin [of 0] to_float64_fin [of 1] to_float64_fin [of 6]
  by (simp_all add: round64_small_values)

section \<open>Properties of guesser.py\<close>

subsection \<open>Dicts and recorded counts\<close>

lemma map_of_dict_set: "map_of (dict_set d k v) = (map_of d)(k \<mapsto> v)"
  by (induction d k v rule: dict_set.induct) auto

lemma keys_dict_set:
  "map fst (dict_set d k v) = (if k \<in> set (map fst d) then map fst d else map fst d @ [k])"
  by (induction d k v rule: dict_set.induct) auto

lemma distinct_dict_set: "distinct (map fst d) \<Longrightarrow> distinct (map fst (dict_set d k v))"
  by (simp add: keys_dict_set)

lemma sum_increment_dict:
  "sum_list (map snd (increment_dict d k (n::int))) = sum_list (map snd d) + n"
  unfolding increment_dict_def Let_def
  by (induction d) (auto split: option.splits)

lemma map_of_increment_dict:
  "map_of (increment_dict d k (n::'v::{zero,plus})) =
     (map_of d)(k \<mapsto> (case map_of d k of None \<Rightarrow> 0 | Some v \<Rightarrow> v) + n)"
  by (simp add: increment_dict_def map_of_dict_set)

lemma keys_increment_dict:
  "map fst (increment_dict d k n) = (if k \<in> set (map fst d) then map fst d else map fst d @ [k])"
  by (simp add: increment_dict_def keys_dict_set)

lemma sum_add: "sum_list (map snd (add g a)) = sum_list (map snd g) + 1"
  by (simp add: add_def sum_increment_dict)

lemma keys_add: "map fst (add g a) = (if a \<in> set (map fst g) then map fst g else map fst g @ [a])"
  by (simp add: add_def keys_increment_dict)

lemma map_of_add:
  "map_of (add g b) = (map_of g)(b \<mapsto> (case map_of g b of None \<Rightarrow> 0 | Some c \<Rightarrow> c) + 1)"
  by (simp add: add_def map_of_increment_dict)

lemma sum_foldl_add:
  "sum_list (map snd (foldl add g accs)) = sum_list (map snd g) + int (length accs)"
  by (induction accs arbitrary: g) (simp_all add: sum_add)

lemma keys_add_set: "fst ` set (add g a) = insert a (fst ` set g)"
proof -
  have "set (map fst (add g a)) = insert a (set (map fst g))"
    unfolding keys_add by auto
  then show ?thesis by simp
qed

lemma keys_foldl_add: "fst ` set (foldl add g accs) = fst ` set g \<union> set accs"
  by (induction accs arbitrary: g) (simp_all add: keys_add_set)

lemma distinct_foldl_add: "distinct (map fst g) \<Longrightarrow> distinct (map fst (foldl add g accs))"
  by (induction accs arbitrary: g) (simp_all add: keys_add)

lemma map_of_foldl_add:
  "map_of (foldl add g accs) a =
     (if a \<in> set accs
      then Some ((case map_of g a of None \<Rightarrow> 0 | Some c \<Rightarrow> c) + int (count_list accs a))
      else map_of g a)"
proof (induction accs arbitrary: g)
  case Nil
  then show ?case by simp
next
  case (Cons b accs)
  show ?case
    by (simp add: Cons.IH map_of_add)
qed

lemma count_list_all_same: "set xs \<subseteq> {a} \<Longrightarrow> count_list xs a = length xs"
  by (induction xs) simp_all

lemma vals_dict_set: "snd ` set (dict_set d k v) \<subseteq> insert v (snd ` set d)"
  by (induction d k v rule: dict_set.induct) auto

lemma counts_add_pos:
  assumes "\<forall>c \<in> snd ` set g. 1 \<le> c"
  shows "\<forall>c \<in> snd ` set (add g a). (1::int) \<le> c"
proof
  fix c
  assume c: "c \<in> snd ` set (add g a)"
  let ?t = "case map_of g a of None \<Rightarrow> 0 | Some c \<Rightarrow> c"
  have t: "0 \<le> ?t"
  proof (cases "map_of g a")
    case None
    then show ?thesis by simp
  next
    case (Some d)
    then have "(a, d) \<in> set g" by (rule map_of_SomeD)
    then have "d \<in> snd ` set g" by force
    with assms have "1 \<le> d" by blast
    with Some show ?thesis by simp
  qed
  have "snd ` set (add g a) \<subseteq> insert (?t + 1) (snd ` set g)"
    unfolding add_def increment_dict_def Let_def by (rule vals_dict_set)
  with c have "c = ?t + 1 \<or> c \<in> snd ` set g" by blast
  then show "1 \<le> c"
  proof
    assume "c = ?t + 1"
    with t show ?thesis by linarith
  next
    assume "c \<in> snd ` set g"
    with assms show ?thesis by blast
  qed
qed

lemma counts_foldl_add_pos:
  "\<forall>c \<in> snd ` set g. 1 \<le> c \<Longrightarrow> \<forall>c \<in> snd ` set (foldl add g accs). (1::int) \<le> c"
proof (induction accs arbitrary: g)
  case Nil
  then show ?case by simp
next
  case (Cons a accs)
  have "\<forall>c \<in> snd ` set (add g a). 1 \<le> c" using Cons.prems by (rule counts_add_pos)
  then have "\<forall>c \<in> snd ` set (foldl add (add g a) accs). 1 \<le> c" by (rule Cons.IH)
  then show ?case by simp
qed

lemma the_map_of_keys:
  "distinct (map fst g) \<Longrightarrow> map (\<lambda>a. f (the (map_of g a))) (map fst g) = map (\<lambda>kv. f (snd kv)) g"
proof (induction g)
  case Nil
  then show ?case by simp
next
  case (Cons p g)
  obtain k v where p: "p = (k, v)" by (cases p)
  from Cons.prems p have k: "k \<notin> fst ` set g" and d: "distinct (map fst g)" by simp_all
  have "map (\<lambda>a. f (the (map_of (p # g) a))) (map fst g)
          = map (\<lambda>a. f (the (map_of g a))) (map fst g)"
  proof (rule map_cong [OF refl])
    fix a assume "a \<in> set (map fst g)"
    with k have "a \<noteq> k" by auto
    then show "f (the (map_of (p # g) a)) = f (the (map_of g a))" using p by simp
  qed
  with Cons.IH [OF d] p show ?case by simp
qed

lemma sum_squares_le:
  fixes cs :: "int list"
  assumes "\<forall>c \<in> set cs. 1 \<le> c"
  shows "sum_list (map (\<lambda>c. c * c) cs) \<le> sum_list cs * sum_list cs
         \<and> (sum_list (map (\<lambda>c. c * c) cs) = sum_list cs * sum_list cs \<longleftrightarrow> length cs \<le> 1)
         \<and> int (length cs) \<le> sum_list cs"
  using assms
proof (induction cs)
  case Nil
  then show ?case by simp
next
  case (Cons c cs)
  let ?s = "sum_list cs" and ?q = "sum_list (map (\<lambda>c. c * c) cs)"
  from Cons have ih: "?q \<le> ?s * ?s" "(?q = ?s * ?s) = (length cs \<le> 1)" "int (length cs) \<le> ?s"
    and c: "1 \<le> c" by simp_all
  have exp: "(c + ?s) * (c + ?s) = c * c + 2 * (c * ?s) + ?s * ?s"
    by (simp add: algebra_simps)
  have s0: "0 \<le> ?s" using ih(3) by linarith
  have cs0: "0 \<le> c * ?s" using c s0 by simp
  have le: "c * c + ?q \<le> (c + ?s) * (c + ?s)"
    unfolding exp using ih(1) cs0 by linarith
  have eq: "(c * c + ?q = (c + ?s) * (c + ?s)) = (cs = [])"
  proof
    assume a: "c * c + ?q = (c + ?s) * (c + ?s)"
    show "cs = []"
    proof (rule ccontr)
      assume "cs \<noteq> []"
      then have "1 \<le> ?s" using ih(3) by (cases cs) auto
      then have "1 \<le> c * ?s" using c mult_mono [of 1 c 1 "?s"] by simp
      with a exp ih(1) show False by linarith
    qed
  next
    assume "cs = []"
    then show "c * c + ?q = (c + ?s) * (c + ?s)" by simp
  qed
  have len: "int (length (c # cs)) \<le> sum_list (c # cs)" using c ih(3) by simp
  from le eq len show ?case by (cases cs) simp_all
qed

lemma member_le_sum_int:
  fixes cs :: "int list"
  shows "\<forall>x \<in> set cs. 0 \<le> x \<Longrightarrow> c \<in> set cs \<Longrightarrow> c \<le> sum_list cs"
proof (induction cs)
  case Nil
  then show ?case by simp
next
  case (Cons x cs)
  have nn: "0 \<le> sum_list cs" using Cons.prems(1) by (simp add: sum_list_nonneg)
  show ?case
  proof (cases "c = x")
    case True
    with nn show ?thesis by simp
  next
    case False
    with Cons.prems have "c \<in> set cs" and "\<forall>x \<in> set cs. 0 \<le> x" by simp_all
    then have "c \<le> sum_list cs" using Cons.IH by blast
    moreover have "0 \<le> x" using Cons.prems(1) by simp
    ultimately show ?thesis by simp
  qed
qed

subsection \<open>Weights as floats\<close>

lemma round64_0: "round64 0 = 0"
  by (simp add: round64_def)

lemma to_float64_unit:
  assumes "0 \<le> x" and "x \<le> 1"
  shows "to_float64 x = Fin (round64 x)"
proof -
  have lo: "0 \<le> round64 x" using assms(1) by (rule round64_nonneg)
  have hi: "round64 x \<le> 1"
  proof (cases "x = 0")
    case True
    then show ?thesis by (simp add: round64_0)
  next
    case False
    with assms(1) have "0 < x" by simp
    then show ?thesis using assms(2) by (rule round64_le_1)
  qed
  have big: "(1::rat) < 2 ^ 1024" by (rule one_less_power) simp_all
  have a: "\<not> 2 ^ 1024 \<le> round64 x" using hi big by linarith
  have b: "\<not> round64 x \<le> - (2 ^ 1024)" using lo big by linarith
  show ?thesis unfolding to_float64_def Let_def using a b by (simp only: if_False)
qed

lemma int_truediv_unit:
  assumes "1 \<le> c" and "c \<le> n"
  shows "int_truediv c n = Inr (Fin (round64 (of_int c / of_int n)))"
proof -
  have n: "0 < n" using assms by linarith
  have q0: "0 \<le> (of_int c / of_int n :: rat)" using assms n by simp
  have q1: "(of_int c / of_int n :: rat) \<le> 1" using assms n by simp
  show ?thesis
    unfolding int_truediv_def to_float64_unit [OF q0 q1] using n by simp
qed

lemma fmul_unit:
  assumes "0 \<le> r" and "r \<le> 1"
  shows "fmul (Fin r) (Fin r) = Fin (round64 (r * r))"
proof -
  have a: "0 \<le> r * r" using assms(1) by simp
  have b: "r * r \<le> 1" using assms by (simp add: mult_le_one)
  show ?thesis by (simp add: to_float64_unit [OF a b])
qed

lemma round64_unit:
  assumes "0 \<le> x" and "x \<le> 1"
  shows "0 \<le> round64 x \<and> round64 x \<le> 1"
proof (cases "x = 0")
  case True
  then show ?thesis by (simp add: round64_0)
next
  case False
  with assms(1) have "0 < x" by simp
  then have "round64 x \<le> 1" using assms(2) by (rule round64_le_1)
  moreover have "0 \<le> round64 x" using assms(1) by (rule round64_nonneg)
  ultimately show ?thesis by simp
qed

lemma get_weight_value:
  assumes "map_of g a = Some c" and "1 \<le> c" and "c \<le> sum_list (map snd g)"
  shows "get_weight g a =
           Inr (Fin (round64 (round64 (of_int c / of_int (sum_list (map snd g)))
                              * round64 (of_int c / of_int (sum_list (map snd g))))))"
proof -
  let ?n = "sum_list (map snd g)"
  let ?q = "of_int c / of_int ?n :: rat"
  have n: "0 < ?n" using assms(2,3) by linarith
  have q0: "0 \<le> ?q" using assms(2) n by simp
  have q1: "?q \<le> 1" using assms(3) n by simp
  from round64_unit [OF q0 q1] have r0: "0 \<le> round64 ?q" and r1: "round64 ?q \<le> 1"
    by simp_all
  show ?thesis
    unfolding get_weight_def assms(1) option.case int_truediv_unit [OF assms(2,3)]
      sum.case fmul_unit [OF r0 r1] ..
qed

lemma count_list_le_length: "count_list xs a \<le> length xs"
  by (induction xs) simp_all

lemma count_list_pos: "a \<in> set xs \<Longrightarrow> 0 < count_list xs a"
  by (induction xs) auto

lemma get_weight_foldl_add:
  assumes "a \<in> set accs"
  shows "get_weight (foldl add GuessItem_init accs) a =
           Inr (Fin (round64 (round64 (of_nat (count_list accs a) / of_nat (length accs))
                              * round64 (of_nat (count_list accs a) / of_nat (length accs)))))"
proof -
  let ?g = "foldl add GuessItem_init accs"
  have m: "map_of ?g a = Some (int (count_list accs a))"
    using assms by (simp add: map_of_foldl_add GuessItem_init_def)
  have s: "sum_list (map snd ?g) = int (length accs)"
    by (simp add: sum_foldl_add GuessItem_init_def)
  have c1: "1 \<le> int (count_list accs a)" using count_list_pos [OF assms] by simp
  have c2: "int (count_list accs a) \<le> sum_list (map snd ?g)"
    unfolding s using count_list_le_length [of accs a] by simp
  from get_weight_value [OF m c1 c2] show ?thesis unfolding s by simp
qed

lemma rel_error_bounds:
  fixes q r e :: rat
  assumes "\<bar>r - q\<bar> \<le> q * e"
  shows "q * (1 - e) \<le> r \<and> r \<le> q * (1 + e)"
  using assms by (simp add: algebra_simps abs_le_iff)

lemma square_error:
  fixes q r w e :: rat
  assumes q: "0 < q" and e0: "0 < e" and e1: "e \<le> 1 / 4"
    and r: "\<bar>r - q\<bar> \<le> q * e" and w: "\<bar>w - r * r\<bar> \<le> r * r * e"
  shows "\<bar>w - q * q\<bar> \<le> q * q * (4 * e)"
proof -
  have r_le: "r \<le> q * (1 + e)" and r_ge: "q * (1 - e) \<le> r"
    using rel_error_bounds [OF r] by simp_all
  have "0 < q * (1 - e)" using q e1 by simp
  with r_ge have r0: "0 < r" by linarith
  have rr: "r * r \<le> (q * (1 + e)) * (q * (1 + e))"
    using r_le r0 by (intro mult_mono) simp_all
  have qe: "0 \<le> q * e" using q e0 by simp
  have d1: "\<bar>r * r - q * q\<bar> \<le> (q * e) * (q * (1 + e) + q)"
  proof -
    have "r * r - q * q = (r - q) * (r + q)" by (simp add: algebra_simps)
    then have "\<bar>r * r - q * q\<bar> = \<bar>r - q\<bar> * (r + q)"
      using r0 q by (simp add: abs_mult)
    also have "\<dots> \<le> (q * e) * (q * (1 + e) + q)"
      using r r_le r0 q qe by (intro mult_mono) simp_all
    finally show ?thesis .
  qed
  have d2: "\<bar>w - r * r\<bar> \<le> ((q * (1 + e)) * (q * (1 + e))) * e"
  proof -
    have "r * r * e \<le> ((q * (1 + e)) * (q * (1 + e))) * e"
      using rr e0 by (simp only: mult_le_cancel_right_pos)
    with w show ?thesis by linarith
  qed
  have "\<bar>w - q * q\<bar> \<le> \<bar>w - r * r\<bar> + \<bar>r * r - q * q\<bar>" by linarith
  also have "\<dots> \<le> ((q * (1 + e)) * (q * (1 + e))) * e + (q * e) * (q * (1 + e) + q)"
    using d1 d2 by linarith
  also have "\<dots> = q * q * (e * ((1 + e) * (1 + e) + 2 + e))" by (simp add: algebra_simps)
  also have "\<dots> \<le> q * q * (4 * e)"
  proof -
    have "(1 + e) * (1 + e) \<le> (5 / 4) * (5 / 4)"
      using e0 e1 by (intro mult_mono) simp_all
    then have "(1 + e) * (1 + e) + 2 + e \<le> 4" using e1 by simp
    then have "e * ((1 + e) * (1 + e) + 2 + e) \<le> e * 4"
      using e0 by (simp only: mult_le_cancel_left_pos)
    then have "e * ((1 + e) * (1 + e) + 2 + e) \<le> 4 * e" by (simp add: mult.commute)
    moreover have "0 \<le> q * q" using q by simp
    ultimately show ?thesis by (rule mult_left_mono)
  qed
  finally show ?thesis .
qed

lemma weight_error:
  assumes lo: "pow2 (- 500) \<le> q" and hi: "q \<le> 1"
  shows "0 < round64 (round64 q * round64 q)
         \<and> round64 (round64 q * round64 q) \<le> 1
         \<and> \<bar>round64 (round64 q * round64 q) - q * q\<bar> \<le> q * q / 2 ^ 51"
proof -
  let ?r = "round64 q"
  let ?w = "round64 (?r * ?r)"
  let ?e = "1 / 2 ^ 53 :: rat"
  have q0: "0 < q" using lo pow2_pos [of "- 500"] by linarith
  have p1: "pow2 (- 1022) \<le> pow2 (- 500)" by (rule pow2_le) simp
  have r: "\<bar>?r - q\<bar> \<le> q * ?e"
    using round64_error [of q] lo p1 by simp
  have e4: "?e \<le> 1 / 4" by simp
  have half: "q / 2 \<le> ?r"
  proof -
    have "q * (1 - ?e) \<le> ?r" using rel_error_bounds [OF r] by (rule conjunct1)
    moreover have "q * (1 / 2) \<le> q * (1 - ?e)"
      using q0 by (intro mult_left_mono) simp_all
    ultimately show ?thesis by simp
  qed
  have r0: "0 < ?r" using half q0 by linarith
  have r1: "?r \<le> 1" using q0 hi by (rule round64_le_1)
  have rr0: "0 < ?r * ?r" using r0 by simp
  have rr1: "?r * ?r \<le> 1" using r0 r1 by (simp add: mult_le_one)
  have rr_lo: "pow2 (- 1022) \<le> ?r * ?r"
  proof -
    have "pow2 (- 501) = pow2 (- 500 + - 1)" by simp
    also have "\<dots> = pow2 (- 500) * pow2 (- 1)" by (rule pow2_add)
    also have "\<dots> = pow2 (- 500) / 2" by (simp add: pow2_def)
    also have "\<dots> \<le> q / 2" using lo by simp
    also have "\<dots> \<le> ?r" by (rule half)
    finally have a: "pow2 (- 501) \<le> ?r" .
    have "pow2 (- 1022) \<le> pow2 (- 501 + - 501)" by (rule pow2_le) simp
    also have "\<dots> = pow2 (- 501) * pow2 (- 501)" by (rule pow2_add)
    also have "\<dots> \<le> ?r * ?r"
      using a pow2_pos [of "- 501"] by (intro mult_mono) simp_all
    finally show ?thesis .
  qed
  have w: "\<bar>?w - ?r * ?r\<bar> \<le> ?r * ?r * ?e"
    using round64_error [OF rr_lo] by simp
  have w1: "?w \<le> 1" using rr0 rr1 by (rule round64_le_1)
  have w0: "0 < ?w"
  proof -
    have "?r * ?r * (1 - ?e) \<le> ?w" using rel_error_bounds [OF w] by (rule conjunct1)
    moreover have "0 < ?r * ?r * (1 - ?e)" using rr0 by simp
    ultimately show ?thesis by linarith
  qed
  have "\<bar>?w - q * q\<bar> \<le> q * q * (4 * ?e)"
    using q0 _ e4 r w by (rule square_error) simp
  also have "\<dots> = q * q / 2 ^ 51" by simp
  finally show ?thesis using w0 w1 by simp
qed

lemma round64_values:
  "round64 1 = 1" "round64 (3 / 4) = 3 / 4" "round64 (1 / 4) = 1 / 4"
  "round64 (9 / 16) = 9 / 16" "round64 (1 / 16) = 1 / 16"
  by code_simp+

subsection \<open>The weight of a recorded account\<close>

text \<open>
  Claim C2, amended. After any sequence of \<open>add\<close> calls on a new GuessItem, the
  weight of an account that was recorded is a finite float: the quotient of its
  count by the number of all recordings, rounded to a float, multiplied by itself
  and rounded again. It is the square of count over total up to a relative error
  of \<open>2\<^sup>-\<^sup>5\<^sup>1\<close> when there are fewer than \<open>2\<^sup>5\<^sup>0\<^sup>0\<close> recordings, and exactly that square in the
  cases that the specification names: an account recorded 3 times out of 4 has
  weight 9/16 (0.5625), one recorded once out of 4 has weight 1/16 (0.0625), and when
  every recording is for the same account its weight is 1.
\<close>

theorem get_weight_recorded:
  assumes "a \<in> set accs"
  shows "(let q = of_nat (count_list accs a) / of_nat (length accs);
              w = round64 (round64 q * round64 q)
          in get_weight (foldl add GuessItem_init accs) a = Inr (Fin w)
             \<and> (length accs < 2 ^ 500 \<longrightarrow> \<bar>w - q\<^sup>2\<bar> \<le> q\<^sup>2 / 2 ^ 51)
             \<and> (count_list accs a = 3 \<and> length accs = 4 \<longrightarrow>
                  get_weight (foldl add GuessItem_init accs) a = Inr (Fin (9 / 16)))
             \<and> (count_list accs a = 1 \<and> length accs = 4 \<longrightarrow>
                  get_weight (foldl add GuessItem_init accs) a = Inr (Fin (1 / 16)))
             \<and> (set accs = {a} \<longrightarrow>
                  get_weight (foldl add GuessItem_init accs) a = Inr (Fin 1)))"
proof -
  let ?g = "foldl add GuessItem_init accs"
  let ?q = "of_nat (count_list accs a) / of_nat (length accs) :: rat"
  let ?w = "round64 (round64 ?q * round64 ?q)"
  have ne: "accs \<noteq> []" using assms by auto
  have w: "get_weight ?g a = Inr (Fin ?w)"
    using assms by (rule get_weight_foldl_add)
  have err: "\<bar>?w - ?q\<^sup>2\<bar> \<le> ?q\<^sup>2 / 2 ^ 51" if len: "length accs < 2 ^ 500"
  proof -
    have c: "1 \<le> count_list accs a" using count_list_pos [OF assms] by simp
    have n: "0 < length accs" using ne by simp
    have "(of_nat (length accs) :: rat) < of_nat (2 ^ 500)"
      using len by (simp only: of_nat_less_iff)
    then have nlt: "(of_nat (length accs) :: rat) < 2 ^ 500" by simp
    have npos: "0 < (of_nat (length accs) :: rat)" using n by simp
    have "pow2 (- 500) = 1 / 2 ^ 500" using pow2_neg_nat [of 500] by simp
    also have "\<dots> \<le> 1 / of_nat (length accs)"
      using nlt npos by (simp add: frac_le)
    also have "\<dots> \<le> ?q"
    proof -
      have "(1::rat) \<le> of_nat (count_list accs a)" using c by simp
      then show ?thesis using npos by (simp add: divide_right_mono)
    qed
    finally have lo: "pow2 (- 500) \<le> ?q" .
    have "(of_nat (count_list accs a) :: rat) \<le> of_nat (length accs)"
      using count_list_le_length [of accs a] by (simp only: of_nat_le_iff)
    then have hi: "?q \<le> 1" using npos by simp
    from weight_error [OF lo hi] show ?thesis by (simp add: power2_eq_square)
  qed
  have three: "get_weight ?g a = Inr (Fin (9 / 16))"
    if "count_list accs a = 3 \<and> length accs = 4"
    using w that by (simp add: round64_values)
  have once: "get_weight ?g a = Inr (Fin (1 / 16))"
    if "count_list accs a = 1 \<and> length accs = 4"
    using w that by (simp add: round64_values)
  have one: "get_weight ?g a = Inr (Fin 1)" if "set accs = {a}"
  proof -
    have "count_list accs a = length accs"
      using that count_list_all_same [of accs a] by simp
    then have "?q = 1" using ne by simp
    with w show ?thesis by (simp add: round64_values)
  qed
  from w err three once one show ?thesis unfolding Let_def by blast
qed

theorem get_weight_recorded_witness:
  "get_weight (foldl add GuessItem_init
       [''Expenses:Coffee'', ''Expenses:Dining'', ''Expenses:Coffee'', ''Expenses:Coffee''])
     ''Expenses:Coffee'' = Inr (Fin (9 / 16))
   \<and> get_weight (foldl add GuessItem_init
       [''Expenses:Coffee'', ''Expenses:Dining'', ''Expenses:Coffee'', ''Expenses:Coffee''])
     ''Expenses:Dining'' = Inr (Fin (1 / 16))
   \<and> get_weight (foldl add GuessItem_init [''Expenses:Coffee'', ''Expenses:Coffee''])
     ''Expenses:Coffee'' = Inr (Fin 1)"
  using get_weight_recorded [of "''Expenses:Coffee''"
      "[''Expenses:Coffee'', ''Expenses:Dining'', ''Expenses:Coffee'', ''Expenses:Coffee'']"]
    get_weight_recorded [of "''Expenses:Dining''"
      "[''Expenses:Coffee'', ''Expenses:Dining'', ''Expenses:Coffee'', ''Expenses:Coffee'']"]
    get_weight_recorded [of "''Expenses:Coffee''" "[''Expenses:Coffee'', ''Expenses:Coffee'']"]
  by (simp add: Let_def round64_values)

text \<open>
  Claim C2 as the specification has it fails where the quotient is not a float: for
  an account recorded once out of 3, the weight returned is
  \<open>2001599834386887 / 2\<^sup>5\<^sup>4\<close> (0.1111111111111111), which is not \<open>(1/3)\<^sup>2\<close>.
\<close>

theorem get_weight_third_counterexample:
  "get_weight (foldl add GuessItem_init
       [''Expenses:Coffee'', ''Expenses:Dining'', ''Expenses:Dining''])
     ''Expenses:Coffee'' = Inr (Fin (2001599834386887 / 18014398509481984))
   \<and> (2001599834386887 / 18014398509481984 :: rat) \<noteq> (1 / 3)\<^sup>2"
proof -
  have a: "round64 (1 / 3) = 6004799503160661 / 18014398509481984"
    by code_simp
  have b: "round64 ((6004799503160661 / 18014398509481984) * (6004799503160661 / 18014398509481984))
             = 2001599834386887 / 18014398509481984"
    by code_simp
  have c: "(2001599834386887 / 18014398509481984 :: rat) \<noteq> (1 / 3)\<^sup>2"
    by (simp add: power2_eq_square)
  have "get_weight (foldl add GuessItem_init
       [''Expenses:Coffee'', ''Expenses:Dining'', ''Expenses:Dining''])
     ''Expenses:Coffee'' = Inr (Fin (round64 (round64 (1 / 3) * round64 (1 / 3))))"
    using get_weight_foldl_add [of "''Expenses:Coffee''"
        "[''Expenses:Coffee'', ''Expenses:Dining'', ''Expenses:Dining'']"]
    by simp
  then show ?thesis unfolding a b using c by simp
qed

section \<open>Properties of interactive.py\<close>

subsection \<open>Valid cursors\<close>

lemma py_getitem_in_range:
  "0 \<le> i \<Longrightarrow> i < int (length xs) \<Longrightarrow> py_getitem xs i = Inr (xs ! nat i)"
  by (simp add: py_getitem_def)

lemma py_getitem_map:
  assumes "0 \<le> i" and "i < int (length xs)"
  shows "py_getitem (map f xs) i = Inr (f (xs ! nat i))"
proof -
  have "nat i < length xs" using assms by linarith
  then show ?thesis using assms by (simp add: py_getitem_def)
qed

lemma get_nested_valid:
  "valid_path nd sel \<Longrightarrow> \<exists>nd'. get_nested_dict_from_selected nd sel = Inr nd'"
proof (induction sel arbitrary: nd)
  case Nil
  then show ?case by simp
next
  case (Cons idx rest)
  then have r: "0 \<le> idx" "idx < int (length (no_root nd))"
    and v: "valid_path (snd (no_root nd ! nat idx)) rest" by simp_all
  have "py_getitem (map snd (no_root nd)) idx = Inr (snd (no_root nd ! nat idx))"
    using r by (rule py_getitem_map)
  with Cons.IH [OF v] show ?case by simp
qed

lemma valid_path_append:
  "valid_path nd (xs @ ys) =
     (valid_path nd xs \<and> (\<forall>nd'. get_nested_dict_from_selected nd xs = Inr nd' \<longrightarrow> valid_path nd' ys))"
proof (induction xs arbitrary: nd)
  case Nil
  then show ?case by simp
next
  case (Cons idx rest)
  show ?case
  proof (cases "0 \<le> idx \<and> idx < int (length (no_root nd))")
    case True
    then have "py_getitem (map snd (no_root nd)) idx = Inr (snd (no_root nd ! nat idx))"
      by (simp add: py_getitem_map)
    with True Cons.IH [of "snd (no_root nd ! nat idx)"] show ?thesis by simp
  next
    case False
    then show ?thesis by auto
  qed
qed

lemma valid_path_snoc:
  assumes "valid_path nd xs" and "get_nested_dict_from_selected nd xs = Inr nd'"
  shows "valid_path nd (xs @ [i]) = (0 \<le> i \<and> i < int (length (no_root nd')))"
  using assms by (simp add: valid_path_append)

lemma valid_cursor_parts:
  assumes "valid_cursor d sel"
  shows "sel \<noteq> [] \<and> valid_path d (butlast sel)
         \<and> (\<exists>nd. get_nested_dict_from_selected d (butlast sel) = Inr nd
                \<and> 0 \<le> last sel \<and> last sel < int (length (no_root nd)))"
proof -
  from assms have ne: "sel \<noteq> []" and v: "valid_path d sel"
    by (auto simp: valid_cursor_def)
  from ne have s: "butlast sel @ [last sel] = sel" by simp
  from v s have v': "valid_path d (butlast sel @ [last sel])" by simp
  then have vb: "valid_path d (butlast sel)" by (simp add: valid_path_append)
  from get_nested_valid [OF vb] obtain nd
    where nd: "get_nested_dict_from_selected d (butlast sel) = Inr nd" ..
  from v' have "0 \<le> last sel \<and> last sel < int (length (no_root nd))"
    unfolding valid_path_snoc [OF vb nd] .
  with ne vb nd show ?thesis by blast
qed

lemma valid_cursor_snoc:
  assumes "valid_path d xs" and "get_nested_dict_from_selected d xs = Inr nd"
    and "0 \<le> i" and "i < int (length (no_root nd))"
  shows "valid_cursor d (xs @ [i])"
  using assms by (simp add: valid_cursor_def valid_path_snoc)

lemma prev_account_valid:
  assumes "valid_cursor d sel"
  shows "\<exists>sel'. prev_account sel = Inr sel' \<and> valid_cursor d sel'"
proof -
  from valid_cursor_parts [OF assms] obtain nd where ne: "sel \<noteq> []"
    and vb: "valid_path d (butlast sel)"
    and nd: "get_nested_dict_from_selected d (butlast sel) = Inr nd"
    and r: "0 \<le> last sel" "last sel < int (length (no_root nd))" by blast
  have lo: "0 \<le> max (last sel - 1) 0" by simp
  have hi: "max (last sel - 1) 0 < int (length (no_root nd))" using r by linarith
  have "valid_cursor d (butlast sel @ [max (last sel - 1) 0])"
    using vb nd lo hi by (rule valid_cursor_snoc)
  then show ?thesis using ne by (simp add: prev_account_def)
qed

lemma next_account_valid:
  assumes "valid_cursor d sel"
  shows "\<exists>sel'. next_account d sel = Inr sel' \<and> valid_cursor d sel'"
proof -
  from valid_cursor_parts [OF assms] obtain nd where ne: "sel \<noteq> []"
    and vb: "valid_path d (butlast sel)"
    and nd: "get_nested_dict_from_selected d (butlast sel) = Inr nd"
    and r: "0 \<le> last sel" "last sel < int (length (no_root nd))" by blast
  have lo: "0 \<le> min (last sel + 1) (int (length (no_root nd)) - 1)" using r by linarith
  have hi: "min (last sel + 1) (int (length (no_root nd)) - 1) < int (length (no_root nd))"
    by linarith
  have "valid_cursor d (butlast sel @ [min (last sel + 1) (int (length (no_root nd)) - 1)])"
    using vb nd lo hi by (rule valid_cursor_snoc)
  then show ?thesis using ne nd by (simp add: next_account_def)
qed

lemma prev_level_valid:
  assumes "valid_cursor d sel"
  shows "\<exists>sel'. prev_level sel = Inr sel' \<and> valid_cursor d sel'"
proof (cases "length sel > 1")
  case True
  from valid_cursor_parts [OF assms] have "valid_path d (butlast sel)" by blast
  moreover have "1 \<le> length (butlast sel)" using True by simp
  ultimately show ?thesis using True by (simp add: prev_level_def valid_cursor_def)
next
  case False
  then show ?thesis using assms by (simp add: prev_level_def)
qed

lemma next_level_valid:
  assumes "valid_cursor d sel"
  shows "\<exists>sel'. next_level d sel = Inr sel' \<and> valid_cursor d sel'"
proof -
  from assms have v: "valid_path d sel" by (simp add: valid_cursor_def)
  from get_nested_valid [OF v] obtain nd
    where nd: "get_nested_dict_from_selected d sel = Inr nd" ..
  show ?thesis
  proof (cases "no_root nd = []")
    case True
    then show ?thesis using nd assms by (simp add: next_level_def)
  next
    case False
    then have "valid_cursor d (sel @ [0])"
      using v nd by (intro valid_cursor_snoc) simp_all
    then show ?thesis using nd False by (simp add: next_level_def)
  qed
qed

lemma navigate_valid:
  assumes "valid_cursor d sel"
  shows "\<exists>sel'. navigate d c sel = Inr sel' \<and> valid_cursor d sel'"
proof (cases c)
  case PrevAccount
  then show ?thesis using prev_account_valid [OF assms] by simp
next
  case NextAccount
  then show ?thesis using next_account_valid [OF assms] by simp
next
  case PrevLevel
  then show ?thesis using prev_level_valid [OF assms] by simp
next
  case NextLevel
  then show ?thesis using next_level_valid [OF assms] by simp
qed

lemma navigate_all_valid:
  "valid_cursor d sel \<Longrightarrow> \<exists>sel'. navigate_all d cs sel = Inr sel' \<and> valid_cursor d sel'"
proof (induction cs arbitrary: sel)
  case Nil
  then show ?case by simp
next
  case (Cons c cs)
  from navigate_valid [OF Cons.prems, of c] obtain sel1
    where s: "navigate d c sel = Inr sel1" and v: "valid_cursor d sel1" by blast
  from Cons.IH [OF v] s show ?case by simp
qed

lemma reset_valid: "no_root d \<noteq> [] \<Longrightarrow> valid_cursor d reset"
  by (simp add: reset_def valid_cursor_def)

subsection \<open>The cursor stays a valid path\<close>

text \<open>
  Claim C4. When the accounts dict has at least one key other than \<open>'__root__'\<close>,
  any sequence of \<open>prev_account\<close>, \<open>next_account\<close>, \<open>prev_level\<close> and \<open>next_level\<close>
  run from \<open>reset\<close> raises nothing and leaves a valid cursor: it has at least one
  index, and each index is at least 0 and less than the number of keys other than
  \<open>'__root__'\<close> at its depth.
\<close>

theorem navigation_keeps_cursor_valid:
  assumes "no_root accounts_dict \<noteq> []"
  shows "\<exists>sel. navigate_all accounts_dict cmds reset = Inr sel
           \<and> 1 \<le> length sel \<and> valid_cursor accounts_dict sel"
proof -
  have "valid_cursor accounts_dict reset" using assms by (rule reset_valid)
  then obtain sel where s: "navigate_all accounts_dict cmds reset = Inr sel"
    and v: "valid_cursor accounts_dict sel"
    using navigate_all_valid by blast
  from v have "1 \<le> length sel" by (simp add: valid_cursor_def)
  with s v show ?thesis by blast
qed

theorem navigation_keeps_cursor_valid_witness:
  "no_root (NestDict None [(''Expenses'', NestDict None [(''Toys'', NestDict None
       [(''Computer'', NestDict (Some True) [])])]), (''Income'', NestDict (Some True) [])]) \<noteq> []
   \<and> (\<exists>sel. navigate_all (NestDict None [(''Expenses'', NestDict None [(''Toys'', NestDict None
             [(''Computer'', NestDict (Some True) [])])]), (''Income'', NestDict (Some True) [])])
           [NextLevel, NextLevel, NextLevel, NextAccount, PrevLevel, PrevAccount] reset = Inr sel
          \<and> 1 \<le> length sel
          \<and> valid_cursor (NestDict None [(''Expenses'', NestDict None [(''Toys'', NestDict None
             [(''Computer'', NestDict (Some True) [])])]), (''Income'', NestDict (Some True) [])]) sel)"
  using navigation_keeps_cursor_valid [of "NestDict None [(''Expenses'', NestDict None
      [(''Toys'', NestDict None [(''Computer'', NestDict (Some True) [])])]),
      (''Income'', NestDict (Some True) [])]"
      "[NextLevel, NextLevel, NextLevel, NextAccount, PrevLevel, PrevAccount]"]
  by simp

subsection \<open>The navigation methods clamp\<close>

text \<open>
  Claim C5. On a valid cursor none of the four navigation methods raises.
  \<open>prev_account\<close> leaves the cursor as it is when its last index is 0;
  \<open>next_account\<close> when its last index is that of the last key of the current level;
  \<open>prev_level\<close> when it has one index; \<open>next_level\<close> when the dict under the cursor
  has no key other than \<open>'__root__'\<close>.
\<close>

theorem navigation_clamps:
  assumes "valid_cursor accounts_dict sel"
  shows "(\<exists>s. prev_account sel = Inr s) \<and> (\<exists>s. next_account accounts_dict sel = Inr s)
         \<and> (\<exists>s. prev_level sel = Inr s) \<and> (\<exists>s. next_level accounts_dict sel = Inr s)
         \<and> (last sel = 0 \<longrightarrow> prev_account sel = Inr sel)
         \<and> (\<exists>nd. get_nested_dict_from_selected accounts_dict (butlast sel) = Inr nd
                \<and> (last sel = int (length (no_root nd)) - 1
                      \<longrightarrow> next_account accounts_dict sel = Inr sel))
         \<and> (length sel = 1 \<longrightarrow> prev_level sel = Inr sel)
         \<and> (\<exists>nd. get_nested_dict accounts_dict sel = Inr nd
                \<and> (no_root nd = [] \<longrightarrow> next_level accounts_dict sel = Inr sel))"
proof -
  from valid_cursor_parts [OF assms] obtain nd where ne: "sel \<noteq> []"
    and nd: "get_nested_dict_from_selected accounts_dict (butlast sel) = Inr nd"
    by blast
  from assms have v: "valid_path accounts_dict sel" by (simp add: valid_cursor_def)
  from get_nested_valid [OF v] obtain nd'
    where nd': "get_nested_dict_from_selected accounts_dict sel = Inr nd'" ..
  have bl: "butlast sel @ [last sel] = sel" using ne by simp
  have p1: "\<exists>s. prev_account sel = Inr s" using prev_account_valid [OF assms] by blast
  have p2: "\<exists>s. next_account accounts_dict sel = Inr s"
    using next_account_valid [OF assms] by blast
  have p3: "\<exists>s. prev_level sel = Inr s" using prev_level_valid [OF assms] by blast
  have p4: "\<exists>s. next_level accounts_dict sel = Inr s"
    using next_level_valid [OF assms] by blast
  have c1: "last sel = 0 \<longrightarrow> prev_account sel = Inr sel"
  proof
    assume z: "last sel = 0"
    have "butlast sel @ [max (last sel - 1) 0] = butlast sel @ [last sel]"
      unfolding z by simp
    then show "prev_account sel = Inr sel" using ne bl by (simp add: prev_account_def)
  qed
  have c2: "last sel = int (length (no_root nd)) - 1 \<longrightarrow> next_account accounts_dict sel = Inr sel"
  proof
    assume z: "last sel = int (length (no_root nd)) - 1"
    have "min (last sel + 1) (int (length (no_root nd)) - 1) = last sel"
      unfolding z by simp
    then show "next_account accounts_dict sel = Inr sel"
      using ne bl nd by (simp add: next_account_def)
  qed
  have c3: "length sel = 1 \<longrightarrow> prev_level sel = Inr sel"
    by (simp add: prev_level_def)
  have c4: "no_root nd' = [] \<longrightarrow> next_level accounts_dict sel = Inr sel"
    using nd' by (simp add: next_level_def)
  have g: "get_nested_dict accounts_dict sel = Inr nd'"
    using nd' by (simp add: get_nested_dict_def)
  from p1 p2 p3 p4 c1 nd c2 c3 g c4 show ?thesis by blast
qed

theorem navigation_clamps_witness:
  "valid_cursor (NestDict None [(''Expenses'', NestDict (Some True) [])]) [0]
   \<and> prev_account [0] = Inr [0]
   \<and> next_account (NestDict None [(''Expenses'', NestDict (Some True) [])]) [0] = Inr [0]
   \<and> prev_level [0] = Inr [0]
   \<and> next_level (NestDict None [(''Expenses'', NestDict (Some True) [])]) [0] = Inr [0]"
proof -
  have v: "valid_cursor (NestDict None [(''Expenses'', NestDict (Some True) [])]) [0]"
    by (simp add: valid_cursor_def)
  show ?thesis
    using v navigation_clamps [OF v]
    by (simp add: get_nested_dict_def py_getitem_def)
qed

subsection \<open>Splitting, joining and looking up account names\<close>

lemma split_at_not_Nil: "split_at P s \<noteq> []"
  by (induction s) (auto split: list.splits)

lemma join_split_colon: "join_colon (split_at (\<lambda>c. c = CHR '':'') s) = s"
proof (induction s)
  case Nil
  then show ?case by simp
next
  case (Cons c cs)
  obtain w ws where sp: "split_at (\<lambda>c. c = CHR '':'') cs = w # ws"
    using split_at_not_Nil [of "\<lambda>c. c = CHR '':''" cs] by (cases "split_at (\<lambda>c. c = CHR '':'') cs") auto
  show ?case
  proof (cases "c = CHR '':''")
    case True
    with Cons sp show ?thesis by simp
  next
    case False
    with Cons sp show ?thesis by (cases ws) simp_all
  qed
qed

lemma py_index_found:
  "map_of kvs part = Some nd \<Longrightarrow>
     \<exists>i. py_index (map fst kvs) part = Inr i \<and> 0 \<le> i \<and> i < int (length kvs)
         \<and> fst (kvs ! nat i) = part \<and> snd (kvs ! nat i) = nd"
proof (induction kvs)
  case Nil
  then show ?case by simp
next
  case (Cons kv kvs)
  show ?case
  proof (cases "fst kv = part")
    case True
    with Cons.prems have "snd kv = nd" by (cases kv) simp
    with True show ?thesis by simp
  next
    case False
    with Cons.prems have "map_of kvs part = Some nd" by (cases kv) simp
    from Cons.IH [OF this] obtain i where i: "py_index (map fst kvs) part = Inr i"
      "0 \<le> i" "i < int (length kvs)" "fst (kvs ! nat i) = part" "snd (kvs ! nat i) = nd"
      by blast
    have n: "nat (i + 1) = Suc (nat i)" using i(2) by simp
    have "py_index (map fst (kv # kvs)) part = Inr (i + 1)" using False i(1) by simp
    moreover have "0 \<le> i + 1" "i + 1 < int (length (kv # kvs))" using i(2,3) by simp_all
    moreover have "fst ((kv # kvs) ! nat (i + 1)) = part" "snd ((kv # kvs) ! nat (i + 1)) = nd"
      unfolding n using i(4,5) by simp_all
    ultimately show ?thesis by blast
  qed
qed

lemma set_parts_round_trip:
  "path_in nd parts \<Longrightarrow>
     \<exists>sel. set_parts nd parts = Inr sel \<and> get_names nd sel = Inr parts
          \<and> length sel = length parts \<and> valid_path nd sel"
proof (induction parts arbitrary: nd)
  case Nil
  then show ?case by simp
next
  case (Cons part rest)
  from Cons.prems obtain nd' where m: "map_of (no_root nd) part = Some nd'"
    and p: "path_in nd' rest" by (auto split: option.splits)
  from py_index_found [OF m] obtain i where i: "py_index (map fst (no_root nd)) part = Inr i"
    "0 \<le> i" "i < int (length (no_root nd))" "fst (no_root nd ! nat i) = part"
    "snd (no_root nd ! nat i) = nd'" by blast
  from Cons.IH [OF p] obtain sel where s: "set_parts nd' rest = Inr sel"
    "get_names nd' sel = Inr rest" "length sel = length rest" "valid_path nd' sel" by blast
  have k: "py_getitem (map fst (no_root nd)) i = Inr part"
    using py_getitem_map [OF i(2,3), of fst] i(4) by simp
  have v: "py_getitem (map snd (no_root nd)) i = Inr nd'"
    using py_getitem_map [OF i(2,3), of snd] i(5) by simp
  have "set_parts nd (part # rest) = Inr (i # sel)" using i(1) m s(1) by simp
  moreover have "get_names nd (i # sel) = Inr (part # rest)" using k v s(2) by simp
  moreover have "valid_path nd (i # sel)" using i(2,3,5) s(4) by simp
  ultimately show ?case using s(3) by simp
qed

subsection \<open>set\_account and the account property\<close>

text \<open>
  Claim C3. When the components of the account name \<open>P\<close>, split at the colons, are
  keys of the nested dicts in turn, \<open>set_account(P)\<close> raises nothing, and reading
  \<open>account\<close> afterwards gives \<open>P\<close> back.
\<close>

theorem set_account_round_trip:
  assumes "path_in accounts_dict (split_colon P)"
  shows "\<exists>sel. set_account accounts_dict P = Inr sel
           \<and> get_account_name accounts_dict sel = Inr P"
proof -
  from set_parts_round_trip [OF assms] obtain sel
    where s: "set_parts accounts_dict (split_colon P) = Inr sel"
      and g: "get_names accounts_dict sel = Inr (split_colon P)" by blast
  have "join_colon (split_colon P) = P"
    unfolding split_colon_def by (rule join_split_colon)
  with g have "get_account_name accounts_dict sel = Inr P"
    by (simp add: get_account_name_def)
  moreover from s have "set_account accounts_dict P = Inr sel"
    by (simp add: set_account_def)
  ultimately show ?thesis by blast
qed

theorem set_account_round_trip_witness:
  "path_in (NestDict None [(''Income'', NestDict (Some True) []),
       (''Expenses'', NestDict None [(''Toys'', NestDict (Some True) [])])])
     (split_colon ''Expenses:Toys'')
   \<and> (\<exists>sel. set_account (NestDict None [(''Income'', NestDict (Some True) []),
            (''Expenses'', NestDict None [(''Toys'', NestDict (Some True) [])])])
          ''Expenses:Toys'' = Inr sel
        \<and> get_account_name (NestDict None [(''Income'', NestDict (Some True) []),
            (''Expenses'', NestDict None [(''Toys'', NestDict (Some True) [])])]) sel
          = Inr ''Expenses:Toys'')"
proof -
  have p: "path_in (NestDict None [(''Income'', NestDict (Some True) []),
       (''Expenses'', NestDict None [(''Toys'', NestDict (Some True) [])])])
     (split_colon ''Expenses:Toys'')"
    by (simp add: split_colon_def)
  from p set_account_round_trip [OF p] show ?thesis by (rule conjI)
qed

subsection \<open>The commit key\<close>

lemma get_names_valid:
  "valid_path nd sel \<Longrightarrow> \<exists>names. get_names nd sel = Inr names"
proof (induction sel arbitrary: nd)
  case Nil
  then show ?case by simp
next
  case (Cons idx rest)
  then have r: "0 \<le> idx" "idx < int (length (no_root nd))"
    and v: "valid_path (snd (no_root nd ! nat idx)) rest" by simp_all
  from Cons.IH [OF v] obtain names
    where n: "get_names (snd (no_root nd ! nat idx)) rest = Inr names" ..
  show ?case
    using n py_getitem_map [OF r, of fst] py_getitem_map [OF r, of snd] by simp
qed

lemma item_gen_postings: "item_gen auto (txn\<lparr>postings := ps\<rparr>) = item_gen auto txn"
  by (simp add: item_gen_def)

lemma add_txn_postings:
  "add_txn auto sd (txn\<lparr>postings := ps\<rparr>) account_name = add_txn auto sd txn account_name"
  by (simp add: add_txn_def item_gen_postings)

text \<open>
  Claim C7. On a valid cursor and an entry with at least two postings, the key
  \<open>'r'\<close> does this. When the dict under the cursor has no key \<open>'__root__'\<close>, or
  holds \<open>False\<close> under it, the round changes nothing: the loop goes on with the same
  cursor, entry and AccountGuess. When it holds \<open>True\<close> under \<open>'__root__'\<close>, the
  account of the second posting becomes the account name of the cursor, the
  AccountGuess is trained by \<open>add_txn\<close> on the entry and that name, and the loop ends
  by \<open>break\<close>, whatever keys would follow.
\<close>

theorem commit_only_on_terminal:
  assumes "valid_cursor accounts_dict sel" and "2 \<le> length (postings entry)"
  shows "\<exists>marker kvs. get_nested_dict accounts_dict sel = Inr (NestDict marker kvs)
           \<and> (marker \<noteq> Some True \<longrightarrow>
                handle_key auto accounts_dict ''r'' (sel, entry, sd) = Continue (sel, entry, sd)
                \<and> key_loop auto accounts_dict (''r'' # keys) (sel, entry, sd)
                    = key_loop auto accounts_dict keys (sel, entry, sd))
           \<and> (marker = Some True \<longrightarrow>
                (\<exists>account_name entry'.
                   get_account_name accounts_dict sel = Inr account_name
                   \<and> entry' = entry\<lparr>postings :=
                        (postings entry)[1 := (postings entry ! 1)\<lparr>account := account_name\<rparr>]\<rparr>
                   \<and> handle_key auto accounts_dict ''r'' (sel, entry, sd)
                       = Break (sel, entry', add_txn auto sd entry account_name)
                   \<and> key_loop auto accounts_dict (''r'' # keys) (sel, entry, sd)
                       = Some (Break (sel, entry', add_txn auto sd entry account_name))))"
proof -
  from assms(1) have v: "valid_path accounts_dict sel" by (simp add: valid_cursor_def)
  from get_nested_valid [OF v] obtain nd
    where nd: "get_nested_dict_from_selected accounts_dict sel = Inr nd" ..
  obtain marker kvs where m: "nd = NestDict marker kvs" by (cases nd)
  from get_names_valid [OF v] obtain names
    where names: "get_names accounts_dict sel = Inr names" ..
  have g: "get_nested_dict accounts_dict sel = Inr (NestDict marker kvs)"
    using nd m by (simp add: get_nested_dict_def)
  have n: "get_account_name accounts_dict sel = Inr (join_colon names)"
    using names by (simp add: get_account_name_def)
  have p: "py_getitem (postings entry) 1 = Inr (postings entry ! 1)"
    using assms(2) by (simp add: py_getitem_def)
  have k: "handle_key auto accounts_dict ''r'' (sel, entry, sd)
             = commit auto accounts_dict (sel, entry, sd)"
    by (simp add: handle_key_def)
  have r: "is_root (NestDict marker kvs) = (marker = Some True)"
    by (cases marker) simp_all
  have no: "handle_key auto accounts_dict ''r'' (sel, entry, sd) = Continue (sel, entry, sd)"
    if "marker \<noteq> Some True"
    unfolding k using g r that by (simp add: commit_def)
  have no_loop: "key_loop auto accounts_dict (''r'' # keys) (sel, entry, sd)
                   = key_loop auto accounts_dict keys (sel, entry, sd)"
    if "marker \<noteq> Some True"
    using no [OF that] by simp
  let ?e = "entry\<lparr>postings :=
              (postings entry)[1 := (postings entry ! 1)\<lparr>account := join_colon names\<rparr>]\<rparr>"
  have yes: "handle_key auto accounts_dict ''r'' (sel, entry, sd)
               = Break (sel, ?e, add_txn auto sd entry (join_colon names))"
    if "marker = Some True"
    unfolding k using g n p r that by (simp add: commit_def Let_def add_txn_postings)
  have loop: "key_loop auto accounts_dict (''r'' # keys) (sel, entry, sd)
               = Some (Break (sel, ?e, add_txn auto sd entry (join_colon names)))"
    if "marker = Some True"
    using yes [OF that] by simp
  from g no no_loop n yes loop show ?thesis by blast
qed

theorem commit_only_on_terminal_witness:
  "(let accounts_dict = NestDict None [(''Expenses'', NestDict None
          [(''Coffee'', NestDict (Some True) []), (''Closed'', NestDict (Some False) [])])];
        auto = (''__automatic__'', ''__residual__'', ''__tolerances__'');
        entry = \<lparr>meta = [], date = 0, flag = CHR ''*'', payee = None,
          narration = ''coffee'', postings = [\<lparr>account = ''Assets:Bank'', units = ''-3 USD''\<rparr>,
            \<lparr>account = ''Expenses:Unknown'', units = ''3 USD''\<rparr>]\<rparr>
    in valid_cursor accounts_dict [0] \<and> valid_cursor accounts_dict [0, 0]
       \<and> valid_cursor accounts_dict [0, 1] \<and> 2 \<le> length (postings entry)
       \<and> get_nested_dict accounts_dict [0]
            = Inr (NestDict None [(''Coffee'', NestDict (Some True) []),
                                  (''Closed'', NestDict (Some False) [])])
       \<and> handle_key auto accounts_dict ''r'' ([0], entry, []) = Continue ([0], entry, [])
       \<and> get_nested_dict accounts_dict [0, 1] = Inr (NestDict (Some False) [])
       \<and> handle_key auto accounts_dict ''r'' ([0, 1], entry, []) = Continue ([0, 1], entry, [])
       \<and> get_nested_dict accounts_dict [0, 0] = Inr (NestDict (Some True) [])
       \<and> handle_key auto accounts_dict ''r'' ([0, 0], entry, [])
          = Break ([0, 0], entry\<lparr>postings := [\<lparr>account = ''Assets:Bank'', units = ''-3 USD''\<rparr>,
                \<lparr>account = ''Expenses:Coffee'', units = ''3 USD''\<rparr>]\<rparr>,
              [(PStr ''coffee'', [(''Expenses:Coffee'', 1)])]))"
proof -
  let ?d = "NestDict None [(''Expenses'', NestDict None
          [(''Coffee'', NestDict (Some True) []), (''Closed'', NestDict (Some False) [])])]"
  let ?auto = "(''__automatic__'', ''__residual__'', ''__tolerances__'')"
  let ?e = "\<lparr>meta = [], date = 0, flag = CHR ''*'', payee = None,
          narration = ''coffee'', postings = [\<lparr>account = ''Assets:Bank'', units = ''-3 USD''\<rparr>,
            \<lparr>account = ''Expenses:Unknown'', units = ''3 USD''\<rparr>]\<rparr>"
  have v0: "valid_cursor ?d [0]" by (simp add: valid_cursor_def)
  have v00: "valid_cursor ?d [0, 0]" by (simp add: valid_cursor_def)
  have v01: "valid_cursor ?d [0, 1]" by (simp add: valid_cursor_def)
  have l: "2 \<le> length (postings ?e)" by simp
  have g0: "get_nested_dict ?d [0] = Inr (NestDict None [(''Coffee'', NestDict (Some True) []),
                                  (''Closed'', NestDict (Some False) [])])"
    by (simp add: get_nested_dict_def py_getitem_def)
  have g01: "get_nested_dict ?d [0, 1] = Inr (NestDict (Some False) [])"
    by (simp add: get_nested_dict_def py_getitem_def)
  have g00: "get_nested_dict ?d [0, 0] = Inr (NestDict (Some True) [])"
    by (simp add: get_nested_dict_def py_getitem_def)
  have n00: "get_account_name ?d [0, 0] = Inr ''Expenses:Coffee''"
    by (simp add: get_account_name_def py_getitem_def)
  have t: "add_txn ?auto [] ?e ''Expenses:Coffee'' = [(PStr ''coffee'', [(''Expenses:Coffee'', 1)])]"
    by (simp add: add_txn_def item_gen_def split_ws_def is_space_def add_def increment_dict_def
        GuessItem_init_def)
  have a: "handle_key ?auto ?d ''r'' ([0], ?e, []) = Continue ([0], ?e, [])"
    using commit_only_on_terminal [OF v0 l, of ?auto "[]" "[]"] by (simp add: g0)
  have b: "handle_key ?auto ?d ''r'' ([0, 1], ?e, []) = Continue ([0, 1], ?e, [])"
    using commit_only_on_terminal [OF v01 l, of ?auto "[]" "[]"] by (simp add: g01)
  have c: "handle_key ?auto ?d ''r'' ([0, 0], ?e, [])
      = Break ([0, 0], ?e\<lparr>postings := [\<lparr>account = ''Assets:Bank'', units = ''-3 USD''\<rparr>,
                \<lparr>account = ''Expenses:Coffee'', units = ''3 USD''\<rparr>]\<rparr>,
              [(PStr ''coffee'', [(''Expenses:Coffee'', 1)])])"
    using commit_only_on_terminal [OF v00 l, of ?auto "[]" "[]"] by (simp add: g00 n00 t)
  from v0 v00 v01 l g0 a g01 b g00 c show ?thesis unfolding Let_def by (intro conjI)
qed

section \<open>Properties of extract.py\<close>

subsection \<open>The loops of extract\_from\_file\<close>

lemma mark_duplicates_acc:
  "mark_duplicates S xs mods dups =
     (mods @ map (\<lambda>x. if fst x \<in> S then flagged (snd x) else snd x) xs,
      dups @ map (\<lambda>x. flagged (snd x)) (filter (\<lambda>x. fst x \<in> S) xs))"
proof (induction xs arbitrary: mods dups)
  case Nil
  then show ?case by simp
next
  case (Cons x xs)
  obtain ident entry where x: "x = (ident, entry)" by (cases x)
  show ?case unfolding x by (simp add: Cons.IH flagged_def Let_def)
qed

lemma dropWhile_sorted_filter:
  "sorted (map f xs) \<Longrightarrow> dropWhile (\<lambda>x. f x < (d::int)) xs = filter (\<lambda>x. \<not> f x < d) xs"
proof (induction xs)
  case Nil
  then show ?case by simp
next
  case (Cons x xs)
  from Cons.prems have s: "sorted (map f xs)" and le: "\<forall>y \<in> set xs. f x \<le> f y" by simp_all
  show ?case
  proof (cases "f x < d")
    case True
    with Cons.IH [OF s] show ?thesis by simp
  next
    case False
    have "\<forall>y \<in> set xs. \<not> f y < d"
    proof
      fix y assume "y \<in> set xs"
      with le have "f x \<le> f y" by blast
      with False show "\<not> f y < d" by linarith
    qed
    then have "filter (\<lambda>x. \<not> f x < d) xs = xs" by (simp add: filter_id_conv)
    with False show ?thesis by simp
  qed
qed

lemma meta_flagged:
  "map_of (meta (flagged entry)) = (map_of (meta entry))(DUPLICATE_META \<mapsto> PBool True)"
  by (simp add: flagged_def map_of_dict_set)

lemma extract_from_file_existing:
  assumes "list_all (\<lambda>x. sanity_check_types (snd x)) new_entries"
  shows "extract_from_file sanity_check_types find_similar_entries new_entries (Some existing) min_date =
     (let cur = (case min_date of None \<Rightarrow> new_entries
                 | Some d \<Rightarrow> dropWhile (\<lambda>x. date (snd x) < d) new_entries);
          S = set (map (\<lambda>pair. fst (fst pair)) (find_similar_entries cur existing))
      in Inr (map (\<lambda>x. if fst x \<in> S then flagged (snd x) else snd x) cur,
              map (\<lambda>x. flagged (snd x)) (filter (\<lambda>x. fst x \<in> S) cur)))"
proof (cases "new_entries = []")
  case True
  then show ?thesis by (cases min_date) (simp_all add: extract_from_file_def)
next
  case False
  with assms show ?thesis
    by (simp add: extract_from_file_def Let_def mark_duplicates_acc)
qed

lemma extract_from_file_no_existing:
  assumes "list_all (\<lambda>x. sanity_check_types (snd x)) new_entries"
  shows "extract_from_file sanity_check_types find_similar_entries new_entries None min_date =
     Inr (map snd (case min_date of None \<Rightarrow> new_entries
                   | Some d \<Rightarrow> dropWhile (\<lambda>x. date (snd x) < d) new_entries), [])"
proof (cases "new_entries = []")
  case True
  then show ?thesis by (cases min_date) (simp_all add: extract_from_file_def)
next
  case False
  with assms show ?thesis by (simp add: extract_from_file_def Let_def)
qed

subsection \<open>Marking the duplicates\<close>

text \<open>
  Claim C6. With existing entries given and every new entry passing the type check,
  \<open>extract_from_file\<close> returns two lists. The first holds, for each new entry in
  order (after the cut at \<open>min_date\<close>, if one is given), the entry itself when its
  identity is in no pair returned by \<open>find_similar_entries\<close>, and otherwise its copy
  whose metadata also maps \<open>DUPLICATE_META\<close> to \<open>True\<close>. The second holds those
  copies, in the same order.
\<close>

theorem duplicates_marked:
  assumes "list_all (\<lambda>x. sanity_check_types (snd x)) new_entries"
  shows "let cur = (case min_date of None \<Rightarrow> new_entries
                    | Some d \<Rightarrow> dropWhile (\<lambda>x. date (snd x) < d) new_entries);
             matched = (\<lambda>x. fst x \<in> set (map (\<lambda>pair. fst (fst pair))
                                             (find_similar_entries cur existing)))
         in \<exists>mods dups.
              extract_from_file sanity_check_types find_similar_entries new_entries
                (Some existing) min_date = Inr (mods, dups)
              \<and> mods = map (\<lambda>x. if matched x then flagged (snd x) else snd x) cur
              \<and> dups = map (\<lambda>x. flagged (snd x)) (filter matched cur)
              \<and> length mods = length cur
              \<and> (\<forall>k < length cur. \<not> matched (cur ! k) \<longrightarrow> mods ! k = snd (cur ! k))
              \<and> (\<forall>k < length cur. matched (cur ! k) \<longrightarrow>
                    mods ! k = flagged (snd (cur ! k))
                    \<and> map_of (meta (mods ! k))
                        = (map_of (meta (snd (cur ! k))))(DUPLICATE_META \<mapsto> PBool True))"
  unfolding Let_def extract_from_file_existing [OF assms]
  by (simp add: meta_flagged)

theorem duplicates_marked_witness:
  "(let new_entries =
          [(1, \<lparr>meta = [], date = 5, flag = CHR ''*'', payee = None, narration = ''a'', postings = []\<rparr>),
           (2, \<lparr>meta = [], date = 7, flag = CHR ''*'', payee = None, narration = ''b'', postings = []\<rparr>)]
    in list_all (\<lambda>x. True) new_entries
       \<and> extract_from_file (\<lambda>e. True) (\<lambda>new existing. [(new ! 1, existing ! 0)]) new_entries
            (Some [\<lparr>meta = [], date = 7, flag = CHR ''*'', payee = None, narration = ''b'', postings = []\<rparr>])
            None
          = Inr ([\<lparr>meta = [], date = 5, flag = CHR ''*'', payee = None, narration = ''a'', postings = []\<rparr>,
                  \<lparr>meta = [(''__duplicate__'', PBool True)], date = 7, flag = CHR ''*'', payee = None,
                     narration = ''b'', postings = []\<rparr>],
                 [\<lparr>meta = [(''__duplicate__'', PBool True)], date = 7, flag = CHR ''*'', payee = None,
                     narration = ''b'', postings = []\<rparr>]))"
proof -
  have s: "list_all (\<lambda>x. True)
     [(1::nat, \<lparr>meta = [], date = 5, flag = CHR ''*'', payee = None, narration = ''a'', postings = []\<rparr>),
      (2, \<lparr>meta = [], date = 7, flag = CHR ''*'', payee = None, narration = ''b'', postings = []\<rparr>)]"
    by simp
  show ?thesis
    using duplicates_marked [OF s, of None "\<lambda>new existing. [(new ! 1, existing ! 0)]"
        "[\<lparr>meta = [], date = 7, flag = CHR ''*'', payee = None, narration = ''b'', postings = []\<rparr>]"]
    by (simp add: Let_def flagged_def DUPLICATE_META_def)
qed

subsection \<open>The cut at the minimum date\<close>

text \<open>
  Claim C9. When a minimum date is given, the new entries are in ascending order of
  date and each passes the type check, \<open>extract_from_file\<close> returns, in their
  order, exactly the entries whose date is not before the minimum date: as they
  are when no existing entries are given, and otherwise each as it is or as its
  copy marked as a duplicate.
\<close>

theorem min_date_drops_earlier:
  assumes "list_all (\<lambda>x. sanity_check_types (snd x)) new_entries"
    and "sorted (map (\<lambda>x. date (snd x)) new_entries)"
  shows "extract_from_file sanity_check_types find_similar_entries new_entries None (Some d)
           = Inr (filter (\<lambda>e. \<not> date e < d) (map snd new_entries), [])
         \<and> (\<exists>mods dups.
               extract_from_file sanity_check_types find_similar_entries new_entries
                 (Some existing) (Some d) = Inr (mods, dups)
               \<and> list_all2 (\<lambda>e m. m = e \<or> m = flagged e)
                    (filter (\<lambda>e. \<not> date e < d) (map snd new_entries)) mods)"
proof -
  have dw: "dropWhile (\<lambda>x. date (snd x) < d) new_entries
              = filter (\<lambda>x. \<not> date (snd x) < d) new_entries"
    using assms(2) by (rule dropWhile_sorted_filter)
  have fm: "filter (\<lambda>e. \<not> date e < d) (map snd new_entries)
              = map snd (filter (\<lambda>x. \<not> date (snd x) < d) new_entries)"
    by (simp add: filter_map comp_def)
  have a: "extract_from_file sanity_check_types find_similar_entries new_entries None (Some d)
             = Inr (filter (\<lambda>e. \<not> date e < d) (map snd new_entries), [])"
    unfolding extract_from_file_no_existing [OF assms(1)] fm by (simp add: dw)
  have l: "list_all2 (\<lambda>e m. m = e \<or> m = flagged e) (map snd xs)
             (map (\<lambda>x. if P x then flagged (snd x) else snd x) xs)" for P and xs :: "(nat \<times> transaction) list"
    by (induction xs) simp_all
  have b: "\<exists>mods dups.
             extract_from_file sanity_check_types find_similar_entries new_entries
               (Some existing) (Some d) = Inr (mods, dups)
             \<and> list_all2 (\<lambda>e m. m = e \<or> m = flagged e)
                  (filter (\<lambda>e. \<not> date e < d) (map snd new_entries)) mods"
    unfolding extract_from_file_existing [OF assms(1)] fm Let_def
    by (simp add: dw l)
  from a b show ?thesis ..
qed

theorem min_date_drops_earlier_witness:
  "(let new_entries =
          [(1, \<lparr>meta = [], date = 5, flag = CHR ''*'', payee = None, narration = ''a'', postings = []\<rparr>),
           (2, \<lparr>meta = [], date = 7, flag = CHR ''*'', payee = None, narration = ''b'', postings = []\<rparr>),
           (3, \<lparr>meta = [], date = 9, flag = CHR ''*'', payee = None, narration = ''c'', postings = []\<rparr>)]
    in list_all (\<lambda>x. True) new_entries
       \<and> sorted (map (\<lambda>x. date (snd x)) new_entries)
       \<and> extract_from_file (\<lambda>e. True) (\<lambda>new existing. []) new_entries None (Some 7)
          = Inr ([\<lparr>meta = [], date = 7, flag = CHR ''*'', payee = None, narration = ''b'', postings = []\<rparr>,
                  \<lparr>meta = [], date = 9, flag = CHR ''*'', payee = None, narration = ''c'', postings = []\<rparr>],
                 []))"
proof -
  have s: "list_all (\<lambda>x. True)
     [(1::nat, \<lparr>meta = [], date = 5, flag = CHR ''*'', payee = None, narration = ''a'', postings = []\<rparr>),
      (2, \<lparr>meta = [], date = 7, flag = CHR ''*'', payee = None, narration = ''b'', postings = []\<rparr>),
      (3, \<lparr>meta = [], date = 9, flag = CHR ''*'', payee = None, narration = ''c'', postings = []\<rparr>)]"
    by simp
  have o: "sorted (map (\<lambda>x. date (snd x))
     [(1::nat, \<lparr>meta = [], date = 5, flag = CHR ''*'', payee = None, narration = ''a'', postings = []\<rparr>),
      (2, \<lparr>meta = [], date = 7, flag = CHR ''*'', payee = None, narration = ''b'', postings = []\<rparr>),
      (3, \<lparr>meta = [], date = 9, flag = CHR ''*'', payee = None, narration = ''c'', postings = []\<rparr>)])"
    by simp
  show ?thesis
    using min_date_drops_earlier [OF s o, of "\<lambda>new existing. []" 7 "[]"]
    by (simp add: Let_def)
qed

subsection \<open>The training loop of main\<close>

lemma py_getitem_second:
  "2 \<le> length xs \<Longrightarrow> py_getitem xs 1 = Inr (xs ! 1)"
  "length xs < 2 \<Longrightarrow> py_getitem xs 1 = Inl IndexError"
  by (simp_all add: py_getitem_def)

lemma train_skip:
  "flag txn \<noteq> FLAG_OKAY \<Longrightarrow>
     train FLAG_OKAY auto (lg, sd) (txn # txns) = train FLAG_OKAY auto (lg, sd) txns"
  by simp

lemma train_step:
  "flag txn = FLAG_OKAY \<Longrightarrow> 2 \<le> length (postings txn) \<Longrightarrow>
     train FLAG_OKAY auto (lg, sd) (txn # txns) =
       train FLAG_OKAY auto
         (lg @ [add_txn_debug auto txn], add_txn auto sd txn (account (postings txn ! 1))) txns"
  by (simp add: py_getitem_second)

lemma train_fail:
  "flag txn = FLAG_OKAY \<Longrightarrow> length (postings txn) < 2 \<Longrightarrow>
     train FLAG_OKAY auto (lg, sd) (txn # txns) = (lg, Inl IndexError)"
  by (simp add: py_getitem_second)

text \<open>
  Claim C8, as amended. When a transaction with the flag \<open>FLAG_OKAY\<close> has no
  second posting, and those before it all have one, the training loop ends with the
  IndexError of \<open>txn.postings[1]\<close>: the \<open>except KeyError\<close> clause does not catch it,
  and nothing handles it. No call to the logger is made for the failure: the log
  holds the \<open>debug\<close> call of \<open>add_txn\<close> for each transaction trained before, and
  nothing more.
\<close>

theorem train_lookup_failure:
  assumes "flag txn = FLAG_OKAY" and "length (postings txn) < 2"
    and "\<forall>t \<in> set before. flag t = FLAG_OKAY \<longrightarrow> 2 \<le> length (postings t)"
  shows "train FLAG_OKAY auto (lg, sd) (before @ txn # after) =
           (lg @ map (add_txn_debug auto) (filter (\<lambda>t. flag t = FLAG_OKAY) before),
            Inl IndexError)"
  using assms(3)
proof (induction before arbitrary: lg sd)
  case Nil
  show ?case using train_fail [OF assms(1,2)] by simp
next
  case (Cons t before)
  from Cons.prems have rest: "\<forall>t \<in> set before. flag t = FLAG_OKAY \<longrightarrow> 2 \<le> length (postings t)"
    by simp
  show ?case
  proof (cases "flag t = FLAG_OKAY")
    case True
    with Cons.prems have "2 \<le> length (postings t)" by simp
    from train_step [OF True this] Cons.IH [OF rest] True show ?thesis by simp
  next
    case False
    from train_skip [OF False] Cons.IH [OF rest] False show ?thesis by simp
  qed
qed

theorem train_lookup_failure_witness:
  "(let good = \<lparr>meta = [], date = 1, flag = CHR ''*'', payee = None, narration = ''tea'',
                postings = [\<lparr>account = ''Assets:Bank'', units = ''-2 USD''\<rparr>,
                            \<lparr>account = ''Expenses:Tea'', units = ''2 USD''\<rparr>]\<rparr>;
        bad = \<lparr>meta = [], date = 2, flag = CHR ''*'', payee = None, narration = ''fee'',
               postings = [\<lparr>account = ''Assets:Bank'', units = ''-1 USD''\<rparr>]\<rparr>
    in flag bad = CHR ''*'' \<and> length (postings bad) < 2
       \<and> (\<forall>t \<in> set [good]. flag t = CHR ''*'' \<longrightarrow> 2 \<le> length (postings t))
       \<and> train (CHR ''*'') (''__automatic__'', ''__residual__'', ''__tolerances__'') ([], [])
            ([good] @ bad # [])
          = ([(''add_txn items'', [PStr ''tea''])], Inl IndexError))"
proof -
  let ?good = "\<lparr>meta = [], date = 1, flag = CHR ''*'', payee = None, narration = ''tea'',
                postings = [\<lparr>account = ''Assets:Bank'', units = ''-2 USD''\<rparr>,
                            \<lparr>account = ''Expenses:Tea'', units = ''2 USD''\<rparr>]\<rparr>"
  let ?bad = "\<lparr>meta = [], date = 2, flag = CHR ''*'', payee = None, narration = ''fee'',
               postings = [\<lparr>account = ''Assets:Bank'', units = ''-1 USD''\<rparr>]\<rparr>"
  have a: "flag ?bad = CHR ''*''" by simp
  have b: "length (postings ?bad) < 2" by simp
  have c: "\<forall>t \<in> set [?good]. flag t = CHR ''*'' \<longrightarrow> 2 \<le> length (postings t)" by simp
  have d: "add_txn_debug (''__automatic__'', ''__residual__'', ''__tolerances__'') ?good
             = (''add_txn items'', [PStr ''tea''])"
    by (simp add: add_txn_debug_def item_gen_def split_ws_def is_space_def)
  show ?thesis
    unfolding Let_def
    using a b c train_lookup_failure [OF a b c,
        of "(''__automatic__'', ''__residual__'', ''__tolerances__'')" "[]" "[]" "[]"] d
    by simp
qed

text \<open>
  Claim C8 as stated, that the failure is logged before it is raised again, fails:
  with one cleared transaction that has a single posting the loop raises and the log
  is empty.
\<close>

theorem train_failure_logged_counterexample:
  "train (CHR ''*'') (''__automatic__'', ''__residual__'', ''__tolerances__'') ([], [])
     [\<lparr>meta = [], date = 2, flag = CHR ''*'', payee = None, narration = ''fee'',
        postings = [\<lparr>account = ''Assets:Bank'', units = ''-1 USD''\<rparr>]\<rparr>]
   = ([], Inl IndexError)"
  by (simp add: py_getitem_def)

subsection \<open>The guess for an entry marked as a duplicate\<close>

text \<open>
  Claim C1 at an input where the code departs from it. \<open>extract_from_file\<close> stores
  the boolean \<open>True\<close> under \<open>DUPLICATE_META\<close>, a key that \<open>EXCLUSIONS\<close> does not
  hold, so \<open>item_gen\<close> yields \<open>True\<close> as an item of every entry marked as a
  duplicate. Once \<open>add_txn\<close> has recorded one such entry, \<open>get_account\<close> on another
  finds a GuessItem for \<open>True\<close> and evaluates \<open>len(True)\<close>: it raises a TypeError
  instead of returning the account with the most votes, and so does the round of
  \<open>select_account\<close> for that entry.
\<close>

theorem get_account_duplicate_TypeError:
  "(let auto = (''__automatic__'', ''__residual__'', ''__tolerances__'');
        first = flagged \<lparr>meta = [(''filename'', PStr ''bank.csv'')], date = 1, flag = CHR ''*'',
                  payee = None, narration = ''coffee'', postings = []\<rparr>;
        second = flagged \<lparr>meta = [(''filename'', PStr ''bank.csv'')], date = 2, flag = CHR ''*'',
                  payee = None, narration = ''coffee'', postings = []\<rparr>;
        sd = add_txn auto [] first ''Expenses:Coffee''
    in item_gen auto second = [PStr ''coffee'', PBool True]
       \<and> sd = [(PStr ''coffee'', [(''Expenses:Coffee'', 1)]), (PBool True, [(''Expenses:Coffee'', 1)])]
       \<and> get_account auto sd second = Inl TypeError
       \<and> review_entry auto True (NestDict None [(''Expenses'', NestDict None
              [(''Coffee'', NestDict (Some True) [])])]) sd second [''r'']
            = Some (Raise TypeError))"
proof -
  let ?auto = "(''__automatic__'', ''__residual__'', ''__tolerances__'')"
  let ?first = "flagged \<lparr>meta = [(''filename'', PStr ''bank.csv'')], date = 1, flag = CHR ''*'',
                  payee = None, narration = ''coffee'', postings = []\<rparr>"
  let ?second = "flagged \<lparr>meta = [(''filename'', PStr ''bank.csv'')], date = 2, flag = CHR ''*'',
                  payee = None, narration = ''coffee'', postings = []\<rparr>"
  have w: "split_ws ''coffee'' = [''coffee'']"
    by (simp add: split_ws_def is_space_def)
  have i1: "item_gen ?auto ?first = [PStr ''coffee'', PBool True]"
    by (simp add: item_gen_def w flagged_def DUPLICATE_META_def EXCLUSIONS_def)
  have i2: "item_gen ?auto ?second = [PStr ''coffee'', PBool True]"
    by (simp add: item_gen_def w flagged_def DUPLICATE_META_def EXCLUSIONS_def)
  have sd: "add_txn ?auto [] ?first ''Expenses:Coffee''
      = [(PStr ''coffee'', [(''Expenses:Coffee'', 1)]), (PBool True, [(''Expenses:Coffee'', 1)])]"
    unfolding add_txn_def i1
    by (simp add: add_def increment_dict_def GuessItem_init_def)
  have g: "get_account ?auto
      [(PStr ''coffee'', [(''Expenses:Coffee'', 1)]), (PBool True, [(''Expenses:Coffee'', 1)])]
      ?second = Inl TypeError"
    unfolding get_account_def i2
    by (simp add: get_def get_weight_def int_truediv_def float_of_int_def float_values
        increment_dict_def zero_float64_def plus_float64_def)
  have r: "review_entry ?auto True (NestDict None [(''Expenses'', NestDict None
              [(''Coffee'', NestDict (Some True) [])])])
      [(PStr ''coffee'', [(''Expenses:Coffee'', 1)]), (PBool True, [(''Expenses:Coffee'', 1)])]
      ?second [''r''] = Some (Raise TypeError)"
    unfolding review_entry_def g by simp
  show ?thesis unfolding Let_def sd using i2 g r by simp
qed

end
